theory Spec2Isabelle
  imports Complex_Main "HOL-Library.Extended_Nat" "HOL-Library.AList"
begin

section \<open>Data model\<close>

text \<open>
  Node identifiers are JavaScript strings. A link is the object
  \<^verbatim>\<open>{ from, to, capacity }\<close>; its fields are called \<open>link_from\<close>, \<open>link_to\<close> here.
  Numbers are the integers the program stores (rates, capacities, loads, queue lengths and
  counters); the rounding of IEEE doubles beyond \<open>2^53\<close> is outside the model.
\<close>

type_synonym node = string

record link =
  link_from :: node
  link_to :: node
  capacity :: int

datatype error = TypeError | NonTermination

text \<open>The module constant \<^verbatim>\<open>nodes = ['A', 'B', 'C', 'D', 'E']\<close>.\<close>

definition nodes :: "node list" where
  "nodes = [''A'', ''B'', ''C'', ''D'', ''E'']"

text \<open>The initial value of the module variable \<^verbatim>\<open>links\<close>.\<close>

definition default_links :: "link list" where
  "default_links =
    [\<lparr>link_from = ''A'', link_to = ''B'', capacity = 100\<rparr>,
     \<lparr>link_from = ''A'', link_to = ''C'', capacity = 80\<rparr>,
     \<lparr>link_from = ''B'', link_to = ''D'', capacity = 70\<rparr>,
     \<lparr>link_from = ''C'', link_to = ''D'', capacity = 90\<rparr>,
     \<lparr>link_from = ''C'', link_to = ''E'', capacity = 100\<rparr>,
     \<lparr>link_from = ''D'', link_to = ''E'', capacity = 60\<rparr>]"

section \<open>utils/dijkstra.js\<close>

text \<open>
  \<open>distances\<close> and \<open>previous\<close> are objects keyed by node; a missing key reads as
  \<^verbatim>\<open>undefined\<close> (\<open>None\<close>). \<open>Infinity\<close> is \<open>\<infinity>\<close> of \<open>enat\<close>; \<^verbatim>\<open>null\<close> in \<open>previous\<close> is
  the inner \<open>None\<close>. \<open>unvisited\<close> is a \<^verbatim>\<open>Set\<close>, iterated in insertion order: a list
  without repetitions. The adjacency list maps a node to its
  \<^verbatim>\<open>{ node, weight }\<close> entries in the order they were pushed.
\<close>

type_synonym distances = "node \<rightharpoonup> enat"
type_synonym previous = "node \<rightharpoonup> node option"
type_synonym graph = "node \<rightharpoonup> (node \<times> nat) list"

text \<open>\<^verbatim>\<open>unvisited.add(node)\<close>\<close>

definition set_add :: "node \<Rightarrow> node list \<Rightarrow> node list" where
  "set_add n u = (if n \<in> set u then u else u @ [n])"

text \<open>The first \<^verbatim>\<open>nodes.forEach\<close>: distances, previous and unvisited.\<close>

fun init_tables ::
  "node \<Rightarrow> node list \<Rightarrow> distances \<times> previous \<times> node list \<Rightarrow> distances \<times> previous \<times> node list"
where
  "init_tables start [] acc = acc"
| "init_tables start (n # ns) (d, p, u) =
     init_tables start ns
       (d(n \<mapsto> (if n = start then 0 else \<infinity>)), p(n \<mapsto> None), set_add n u)"

text \<open>The second \<^verbatim>\<open>nodes.forEach\<close>: an empty adjacency list for every node.\<close>

fun init_graph :: "node list \<Rightarrow> graph \<Rightarrow> graph" where
  "init_graph [] g = g"
| "init_graph (n # ns) g = init_graph ns (g(n \<mapsto> []))"

text \<open>
  One step of \<^verbatim>\<open>links.forEach\<close>. \<^verbatim>\<open>graph[link.from].push\<close> throws a TypeError when
  the endpoint is not a key of \<open>graph\<close>.
\<close>

definition add_edge :: "link \<Rightarrow> graph \<Rightarrow> error + graph" where
  "add_edge l g =
     (case g (link_from l) of
        None \<Rightarrow> Inl TypeError
      | Some ns \<Rightarrow>
          (let g1 = g(link_from l \<mapsto> ns @ [(link_to l, 1)])
           in case g1 (link_to l) of
                None \<Rightarrow> Inl TypeError
              | Some ms \<Rightarrow> Inr (g1(link_to l \<mapsto> ms @ [(link_from l, 1)]))))"

fun add_edges :: "link list \<Rightarrow> graph \<Rightarrow> error + graph" where
  "add_edges [] g = Inr g"
| "add_edges (l # ls) g =
     (case add_edge l g of Inl e \<Rightarrow> Inl e | Inr g' \<Rightarrow> add_edges ls g')"

text \<open>
  The \<^verbatim>\<open>for (const node of unvisited)\<close> scan: the pair is
  \<open>(currentNode, minDistance)\<close>. A comparison with \<^verbatim>\<open>undefined\<close> is false.
\<close>

fun find_min :: "distances \<Rightarrow> node list \<Rightarrow> node option \<times> enat \<Rightarrow> node option \<times> enat" where
  "find_min d [] acc = acc"
| "find_min d (n # ns) (cur, m) =
     (case d n of
        Some dn \<Rightarrow> if dn < m then find_min d ns (Some n, dn) else find_min d ns (cur, m)
      | None \<Rightarrow> find_min d ns (cur, m))"

text \<open>The body of \<^verbatim>\<open>graph[currentNode].forEach(neighbor => ...)\<close>.\<close>

definition relax_one ::
  "node list \<Rightarrow> node \<Rightarrow> node \<times> nat \<Rightarrow> distances \<times> previous \<Rightarrow> distances \<times> previous"
where
  "relax_one u c nb dp =
     (let (d, p) = dp in
      if fst nb \<in> set u then
        (case d c of
           None \<Rightarrow> (d, p)
         | Some dc \<Rightarrow>
             (let newDistance = dc + enat (snd nb) in
              case d (fst nb) of
                None \<Rightarrow> (d, p)
              | Some dn \<Rightarrow>
                  if newDistance < dn
                  then (d(fst nb \<mapsto> newDistance), p(fst nb \<mapsto> Some c))
                  else (d, p)))
      else (d, p))"

fun relax :: "node list \<Rightarrow> node \<Rightarrow> (node \<times> nat) list \<Rightarrow> distances \<times> previous \<Rightarrow> distances \<times> previous"
where
  "relax u c [] dp = dp"
| "relax u c (nb # nbs) dp = relax u c nbs (relax_one u c nb dp)"

text \<open>The \<^verbatim>\<open>while (unvisited.size > 0)\<close> loop.\<close>

function main_loop ::
  "graph \<Rightarrow> node \<Rightarrow> distances \<times> previous \<times> node list \<Rightarrow> distances \<times> previous \<times> node list"
where
  "main_loop g end (d, p, u) =
     (if length u > 0 then
        (case fst (find_min d u (None, \<infinity>)) of
           None \<Rightarrow> (d, p, u)
         | Some currentNode \<Rightarrow>
             if d currentNode = Some \<infinity> then (d, p, u)
             else
               (let u' = removeAll currentNode u in
                if currentNode = end then (d, p, u')
                else
                  (case g currentNode of
                     None \<Rightarrow> main_loop g end (d, p, u')
                   | Some nbs \<Rightarrow>
                       (case relax u' currentNode nbs (d, p) of
                          (d', p') \<Rightarrow> main_loop g end (d', p', u')))))
      else (d, p, u))"
  by pat_completeness auto
termination
proof (relation "measure (\<lambda>(g, e, d, p, u). length u)")
  show "wf (measure (\<lambda>(g, e, d, p, u). length u))" by simp
next
  fix g :: graph and e :: node and d :: distances and p :: previous and u c u'
  assume "fst (find_min d u (None, \<infinity>)) = Some c" and "u' = removeAll c u"
  have find_min_in: "find_min d v (cur, m) = (Some c, m') \<Longrightarrow> cur = Some c \<or> c \<in> set v"
    for v cur m m'
    by (induction v arbitrary: cur m) (auto split: option.splits if_splits)
  from \<open>fst (find_min d u (None, \<infinity>)) = Some c\<close> have "c \<in> set u"
    using find_min_in [of u None \<infinity> "snd (find_min d u (None, \<infinity>))"]
    by (metis option.distinct(1) prod.collapse)
  then have "length (removeAll c u) < length u"
    by (induction u) (auto simp: less_Suc_eq_le length_removeAll_less_eq)
  then show "((g, e, d, p, u'), (g, e, d, p, u)) \<in> measure (\<lambda>(g, e, d, p, u). length u)"
    using \<open>u' = removeAll c u\<close> by simp
  fix nbs :: "(node \<times> nat) list" and d' :: distances and p' :: previous
  show "((g, e, d', p', u'), (g, e, d, p, u)) \<in> measure (\<lambda>(g, e, d, p, u). length u)"
    using \<open>length (removeAll c u) < length u\<close> \<open>u' = removeAll c u\<close> by simp
qed

declare main_loop.simps [simp del]

text \<open>
  Path reconstruction, \<^verbatim>\<open>while (currentNode !== null)\<close>. Nothing in the loop bounds
  it: it ends only when the chain of \<open>previous\<close> reaches \<^verbatim>\<open>null\<close>. A node that is not a
  key of \<open>previous\<close> reads as \<^verbatim>\<open>undefined\<close>, which is not \<^verbatim>\<open>null\<close> and whose own
  entry is \<^verbatim>\<open>undefined\<close> again: that loop never ends. \<open>None\<close> is "does not return".
\<close>

partial_function (option) reconstruct :: "previous \<Rightarrow> node option \<Rightarrow> node list \<Rightarrow> node list option"
where
  "reconstruct p currentNode path =
     (case currentNode of
        None \<Rightarrow> Some path
      | Some c \<Rightarrow>
          (case p c of
             None \<Rightarrow> None
           | Some nxt \<Rightarrow> reconstruct p nxt (c # path)))"

declare reconstruct.simps [code]

definition dijkstra :: "node list \<Rightarrow> link list \<Rightarrow> node \<Rightarrow> node \<Rightarrow> error + node list" where
  "dijkstra ns ls start end =
     (case init_tables start ns (Map.empty, Map.empty, []) of
        (d0, p0, u0) \<Rightarrow>
          (case add_edges ls (init_graph ns Map.empty) of
             Inl e \<Rightarrow> Inl e
           | Inr g \<Rightarrow>
               (case main_loop g end (d0, p0, u0) of
                  (d, p, u) \<Rightarrow>
                    (case reconstruct p (Some end) [] of
                       None \<Rightarrow> Inl NonTermination
                     | Some path \<Rightarrow>
                         (case path of
                            [] \<Rightarrow> Inr []
                          | x # xs \<Rightarrow> if x \<noteq> start then Inr [] else Inr path)))))"


section \<open>network.js: the engine's state\<close>

text \<open>
  The engine's mutable state is the object \<^verbatim>\<open>networkState\<close> together with the two
  module-level tables the administrative operations write to, \<^verbatim>\<open>trafficRates\<close> and
  \<^verbatim>\<open>links\<close>. Objects used as dictionaries are association lists in insertion order
  (the order \<^verbatim>\<open>Object.keys\<close> and \<^verbatim>\<open>Object.entries\<close> iterate in); writing a key is
  \<open>AList.update\<close>, which overwrites in place or appends.
\<close>

record node_stats =
  packetsGenerated :: int
  packetsReceived :: int
  currentLoad :: int

text \<open>An entry of a packet's \<^verbatim>\<open>route\<close>: \<^verbatim>\<open>{ from, to, transmitted, linkKey }\<close>.\<close>

record hop =
  hop_from :: node
  hop_to :: node
  hop_transmitted :: bool
  hop_linkKey :: string

text \<open>
  An entry of \<^verbatim>\<open>packetStats\<close>:
  \<^verbatim>\<open>{ id, source, destination, path, route, transmitted, timestamp }\<close>.
\<close>

record packet =
  pkt_id :: string
  pkt_source :: node
  pkt_destination :: node
  pkt_path :: "node list"
  pkt_route :: "hop list"
  pkt_transmitted :: bool
  pkt_timestamp :: int

record engine =
  trafficRates :: "(string \<times> (node \<times> int) list) list"
  links :: "link list"
  currentTime :: string
  isRunning :: bool
  simulationStep :: int
  queues :: "(string \<times> int) list"
  linkLoads :: "(string \<times> int) list"
  packetStats :: "packet list"
  nodeStats :: "(node \<times> node_stats) list"
  totalPacketsGenerated :: int
  totalPacketsTransmitted :: int

definition default_trafficRates :: "(string \<times> (node \<times> int) list) list" where
  "default_trafficRates =
    [(''08:00'', [(''A'', 50), (''B'', 30), (''C'', 40), (''D'', 20), (''E'', 60)]),
     (''08:15'', [(''A'', 55), (''B'', 35), (''C'', 45), (''D'', 25), (''E'', 65)]),
     (''08:30'', [(''A'', 60), (''B'', 40), (''C'', 50), (''D'', 30), (''E'', 70)]),
     (''08:45'', [(''A'', 55), (''B'', 35), (''C'', 45), (''D'', 25), (''E'', 65)])]"

text \<open>The state when the module has been loaded.\<close>

definition module_state :: engine where
  "module_state =
    \<lparr>trafficRates = default_trafficRates, links = default_links,
     currentTime = ''08:00'', isRunning = False, simulationStep = 0,
     queues = [], linkLoads = [], packetStats = [], nodeStats = [],
     totalPacketsGenerated = 0, totalPacketsTransmitted = 0\<rparr>"

text \<open>The template string \<^verbatim>\<open>`${from}-${to}`\<close>.\<close>

definition linkKey :: "node \<Rightarrow> node \<Rightarrow> string" where
  "linkKey a b = a @ ''-'' @ b"

text \<open>\<^verbatim>\<open>links.find(l => `${l.from}-${l.to}` === linkKey)\<close>\<close>

definition find_link :: "link list \<Rightarrow> string \<Rightarrow> link option" where
  "find_link ls k = find (\<lambda>l. linkKey (link_from l) (link_to l) = k) ls"

text \<open>\<^verbatim>\<open>table[key] || 0\<close>: a missing key reads as 0.\<close>

definition or0 :: "(string \<times> int) list \<Rightarrow> string \<Rightarrow> int" where
  "or0 al k = (case map_of al k of None \<Rightarrow> 0 | Some v \<Rightarrow> v)"

definition zero_stats :: node_stats where
  "zero_stats = \<lparr>packetsGenerated = 0, packetsReceived = 0, currentLoad = 0\<rparr>"

definition init_link :: "link \<Rightarrow> engine \<Rightarrow> engine" where
  "init_link l s =
     (let k = linkKey (link_from l) (link_to l) in
      s\<lparr>linkLoads := AList.update k 0 (linkLoads s),
        queues := AList.update k 0 (queues s)\<rparr>)"

definition initializeNetwork :: "engine \<Rightarrow> engine" where
  "initializeNetwork s =
     (let s1 = s\<lparr>queues := [], linkLoads := [], nodeStats := []\<rparr>;
          s2 = s1\<lparr>nodeStats := fold (\<lambda>n st. AList.update n zero_stats st) nodes (nodeStats s1)\<rparr>
      in fold init_link (links s2) s2)"

text \<open>
  \<^verbatim>\<open>app.js\<close> calls \<^verbatim>\<open>initializeNetwork()\<close> before the server accepts a request: this
  is the state the first request finds.
\<close>

definition initial_state :: engine where
  "initial_state = initializeNetwork module_state"

section \<open>network.js: one tick\<close>

text \<open>
  \<^verbatim>\<open>Math.random()\<close> is the only input of a tick. A tick takes the draws as a function
  \<open>rnd source i\<close>: the value of \<^verbatim>\<open>Math.floor(Math.random() * availableNodes.length)\<close> in
  the \<open>i\<close>-th iteration for \<open>source\<close>, read modulo the length so that every natural number
  stands for a possible draw.
\<close>

type_synonym draws = "node \<Rightarrow> nat \<Rightarrow> nat"

text \<open>
  \<^verbatim>\<open>availableNodes[...]\<close> is \<^verbatim>\<open>undefined\<close> (\<open>None\<close>) when no other node exists.
\<close>

definition getRandomDestination :: "node \<Rightarrow> nat \<Rightarrow> node option" where
  "getRandomDestination source r =
     (let availableNodes = filter (\<lambda>n. n \<noteq> source) nodes in
      if availableNodes = [] then None
      else Some (availableNodes ! (r mod length availableNodes)))"

text \<open>One key of the \<^verbatim>\<open>forEach\<close> in \<^verbatim>\<open>processQueuedPackets\<close>.\<close>

definition drain_key :: "string \<Rightarrow> engine \<Rightarrow> engine" where
  "drain_key k s =
     (case map_of (queues s) k of
        None \<Rightarrow> s
      | Some q \<Rightarrow>
          if q > 0 then
            (case find_link (links s) k of
               None \<Rightarrow> s
             | Some l \<Rightarrow>
                 (let processable = min q (capacity l) in
                  s\<lparr>queues := AList.update k (q - processable) (queues s),
                    totalPacketsTransmitted := totalPacketsTransmitted s + processable\<rparr>))
          else s)"

definition processQueuedPackets :: "engine \<Rightarrow> engine" where
  "processQueuedPackets s = fold drain_key (map fst (queues s)) s"

definition updateLinkLoad :: "string \<Rightarrow> int \<Rightarrow> engine \<Rightarrow> bool \<times> engine" where
  "updateLinkLoad k packets s =
     (case find_link (links s) k of
        None \<Rightarrow> (False, s)
      | Some l \<Rightarrow>
          (let currentLoad = or0 (linkLoads s) k;
               newLoad = currentLoad + packets
           in if newLoad > capacity l then
                (let excess = newLoad - capacity l in
                 (False, s\<lparr>queues := AList.update k (or0 (queues s) k + excess) (queues s),
                           linkLoads := AList.update k (capacity l) (linkLoads s)\<rparr>))
              else (True, s\<lparr>linkLoads := AList.update k newLoad (linkLoads s)\<rparr>)))"

text \<open>
  The loop \<^verbatim>\<open>for (let j = 0; j < path.length - 1; j++)\<close>: the accumulator is
  \<open>(packetRoute, packetTransmitted, state)\<close>.
\<close>

fun transmit :: "node list \<Rightarrow> hop list \<times> bool \<times> engine \<Rightarrow> hop list \<times> bool \<times> engine" where
  "transmit (a # b # rest) (route, ok, s) =
     (let k = linkKey a b;
          (transmitted, s') = updateLinkLoad k 1 s
      in transmit (b # rest)
           (route @ [\<lparr>hop_from = a, hop_to = b, hop_transmitted = transmitted, hop_linkKey = k\<rparr>],
            ok \<and> transmitted, s'))"
| "transmit [a] acc = acc"
| "transmit [] acc = acc"

text \<open>Decimal digits of a loop counter, for the packet's \<^verbatim>\<open>id\<close>.\<close>

fun string_of_nat :: "nat \<Rightarrow> string" where
  "string_of_nat n =
     (if n < 10 then [char_of (48 + n)]
      else string_of_nat (n div 10) @ [char_of (48 + n mod 10)])"

declare string_of_nat.simps [simp del]

text \<open>
  What one packet does once its path is known (the body of the \<^verbatim>\<open>for\<close> loop from
  \<^verbatim>\<open>if (path.length < 2) continue\<close> on). Reading a property of
  \<^verbatim>\<open>nodeStats[destination]\<close> throws a TypeError when the entry is missing.
\<close>

definition send_packet :: "node \<Rightarrow> node \<Rightarrow> nat \<Rightarrow> node list \<Rightarrow> engine \<Rightarrow> error + engine" where
  "send_packet source destination i path s =
     (if length path < 2 then Inr s
      else
        (case transmit path ([], True, s) of
           (packetRoute, packetTransmitted, s1) \<Rightarrow>
             (let s2 = s1\<lparr>packetStats := packetStats s1 @
                        [\<lparr>pkt_id = source @ ''-'' @ destination @ ''-'' @ string_of_nat i,
                          pkt_source = source, pkt_destination = destination,
                          pkt_path = path, pkt_route = packetRoute,
                          pkt_transmitted = packetTransmitted,
                          pkt_timestamp = simulationStep s1\<rparr>]\<rparr>
              in if packetTransmitted then
                   (case map_of (nodeStats s2) destination of
                      None \<Rightarrow> Inl TypeError
                    | Some st \<Rightarrow>
                        Inr (s2\<lparr>nodeStats :=
                                  AList.update destination
                                    (st\<lparr>packetsReceived := packetsReceived st + 1\<rparr>) (nodeStats s2),
                                totalPacketsTransmitted := totalPacketsTransmitted s2 + 1\<rparr>))
                 else Inr s2)))"

text \<open>
  One iteration of \<^verbatim>\<open>for (let i = 0; i < rate; i++)\<close>. With \<^verbatim>\<open>undefined\<close> as the
  destination the router's reconstruction loop never ends.
\<close>

definition packet_step :: "draws \<Rightarrow> node \<Rightarrow> nat \<Rightarrow> engine \<Rightarrow> error + engine" where
  "packet_step rnd source i s =
     (case getRandomDestination source (rnd source i) of
        None \<Rightarrow> Inl NonTermination
      | Some destination \<Rightarrow>
          (case dijkstra nodes (links s) source destination of
             Inl e \<Rightarrow> Inl e
           | Inr path \<Rightarrow> send_packet source destination i path s))"

fun packet_loop :: "draws \<Rightarrow> node \<Rightarrow> nat list \<Rightarrow> engine \<Rightarrow> error + engine" where
  "packet_loop rnd source [] s = Inr s"
| "packet_loop rnd source (i # is) s =
     (case packet_step rnd source i s of
        Inl e \<Rightarrow> Inl e
      | Inr s' \<Rightarrow> packet_loop rnd source is s')"

text \<open>
  One entry of \<^verbatim>\<open>Object.entries(currentRates).forEach\<close>; the second component is
  \<^verbatim>\<open>tickPacketsGenerated\<close>.
\<close>

definition source_step :: "draws \<Rightarrow> node \<times> int \<Rightarrow> engine \<times> int \<Rightarrow> error + engine \<times> int" where
  "source_step rnd sr acc =
     (case sr of (source, rate) \<Rightarrow>
      case acc of (s, tickPacketsGenerated) \<Rightarrow>
        (case map_of (nodeStats s) source of
           None \<Rightarrow> Inl TypeError
         | Some st \<Rightarrow>
             (let s1 = s\<lparr>nodeStats :=
                          AList.update source
                            (st\<lparr>packetsGenerated := packetsGenerated st + rate,
                                currentLoad := rate\<rparr>) (nodeStats s)\<rparr>
              in case packet_loop rnd source [0..<nat rate] s1 of
                   Inl e \<Rightarrow> Inl e
                 | Inr s2 \<Rightarrow> Inr (s2, tickPacketsGenerated + rate))))"

fun source_loop :: "draws \<Rightarrow> (node \<times> int) list \<Rightarrow> engine \<times> int \<Rightarrow> error + engine \<times> int" where
  "source_loop rnd [] acc = Inr acc"
| "source_loop rnd (sr # srs) acc =
     (case source_step rnd sr acc of
        Inl e \<Rightarrow> Inl e
      | Inr acc' \<Rightarrow> source_loop rnd srs acc')"

text \<open>
  \<^verbatim>\<open>simulateTick\<close>. A thrown error is \<open>Inl\<close>; the partly updated state a throw leaves
  behind is not modelled.
\<close>

definition simulateTick :: "draws \<Rightarrow> engine \<Rightarrow> error + engine" where
  "simulateTick rnd s =
     (case map_of (trafficRates s) (currentTime s) of
        None \<Rightarrow> Inr s
      | Some currentRates \<Rightarrow>
          (let s1 = s\<lparr>linkLoads := [], packetStats := []\<rparr>;
               s2 = processQueuedPackets s1
           in case source_loop rnd currentRates (s2, 0) of
                Inl e \<Rightarrow> Inl e
              | Inr (s3, tickPacketsGenerated) \<Rightarrow>
                  Inr (s3\<lparr>totalPacketsGenerated := totalPacketsGenerated s3 + tickPacketsGenerated,
                          simulationStep := simulationStep s3 + 1\<rparr>)))"

text \<open>A sequence of ticks, one function of draws per tick; it stops at the first throw.\<close>

fun ticks :: "draws list \<Rightarrow> engine \<Rightarrow> error + engine" where
  "ticks [] s = Inr s"
| "ticks (rnd # rnds) s =
     (case simulateTick rnd s of Inl e \<Rightarrow> Inl e | Inr s' \<Rightarrow> ticks rnds s')"

section \<open>network.js: statistics\<close>

text \<open>
  The percentages are floating-point numbers printed by \<^verbatim>\<open>toFixed(2)\<close>. The snapshot
  holds the exact quotient they round; \<open>None\<close> stands for a division by zero
  (\<^verbatim>\<open>Infinity\<close> or \<^verbatim>\<open>NaN\<close> in JavaScript).
\<close>

definition js_div :: "int \<Rightarrow> int \<Rightarrow> rat option" where
  "js_div a b = (if b = 0 then None else Some (of_int a / of_int b))"

record link_view =
  lv_from :: node
  lv_to :: node
  lv_capacity :: int
  lv_currentLoad :: int
  lv_utilization :: "rat option"
  lv_queueSize :: int
  lv_congested :: bool

text \<open>\<^verbatim>\<open>{ id: node, ...networkState.nodeStats[node] }\<close>: spreading \<^verbatim>\<open>undefined\<close> adds nothing.\<close>

record node_view =
  nv_id :: node
  nv_stats :: "node_stats option"

record summary =
  sum_totalPacketsGenerated :: int
  sum_totalPacketsTransmitted :: int
  sum_packetLoss :: "rat option"
  sum_averageQueueSize :: "rat option"

record snapshot =
  snap_currentTime :: string
  snap_simulationStep :: int
  snap_isRunning :: bool
  snap_nodes :: "node_view list"
  snap_links :: "link_view list"
  snap_packets :: "packet list"
  snap_summary :: summary

definition linkStats :: "engine \<Rightarrow> link \<Rightarrow> link_view" where
  "linkStats s l =
     (let k = linkKey (link_from l) (link_to l);
          load = or0 (linkLoads s) k;
          queueSize = or0 (queues s) k
      in \<lparr>lv_from = link_from l, lv_to = link_to l, lv_capacity = capacity l,
          lv_currentLoad = load,
          lv_utilization = map_option (\<lambda>q. q * 100) (js_div load (capacity l)),
          lv_queueSize = queueSize,
          lv_congested = (load \<ge> capacity l \<or> queueSize > 0)\<rparr>)"

text \<open>
  \<^verbatim>\<open>getNetworkStats\<close> returns the snapshot; the second component is the state the call
  leaves behind.
\<close>

definition getNetworkStats :: "engine \<Rightarrow> snapshot \<times> engine" where
  "getNetworkStats s =
     (\<lparr>snap_currentTime = currentTime s,
       snap_simulationStep = simulationStep s,
       snap_isRunning = isRunning s,
       snap_nodes = map (\<lambda>n. \<lparr>nv_id = n, nv_stats = map_of (nodeStats s) n\<rparr>) nodes,
       snap_links = map (linkStats s) (links s),
       snap_packets = packetStats s,
       snap_summary =
         \<lparr>sum_totalPacketsGenerated = totalPacketsGenerated s,
          sum_totalPacketsTransmitted = totalPacketsTransmitted s,
          sum_packetLoss =
            (if totalPacketsGenerated s > 0
             then map_option (\<lambda>q. q * 100)
                    (js_div (totalPacketsGenerated s - totalPacketsTransmitted s)
                       (totalPacketsGenerated s))
             else Some 0),
          sum_averageQueueSize =
            js_div (fold (\<lambda>b a. a + b) (map snd (queues s)) 0) (int (length (links s)))\<rparr>\<rparr>,
      s)"

section \<open>network.js: control and administration\<close>

definition startSimulation :: "engine \<Rightarrow> engine" where
  "startSimulation s = initializeNetwork (s\<lparr>isRunning := True\<rparr>)"

definition pauseSimulation :: "engine \<Rightarrow> engine" where
  "pauseSimulation s = s\<lparr>isRunning := False\<rparr>"

definition resetSimulation :: "engine \<Rightarrow> engine" where
  "resetSimulation s =
     initializeNetwork
       (s\<lparr>isRunning := False, simulationStep := 0, currentTime := ''08:00'',
          totalPacketsGenerated := 0, totalPacketsTransmitted := 0\<rparr>)"

text \<open>
  \<^verbatim>\<open>updateTrafficRates(nodeId, newRate)\<close> writes into the table of the current slot; the
  result is the returned boolean and the state.
\<close>

definition updateTrafficRates :: "node \<Rightarrow> int \<Rightarrow> engine \<Rightarrow> bool \<times> engine" where
  "updateTrafficRates nodeId newRate s =
     (case map_of (trafficRates s) (currentTime s) of
        Some rates \<Rightarrow>
          if nodeId \<in> set nodes then
            (True, s\<lparr>trafficRates :=
                       AList.update (currentTime s) (AList.update nodeId newRate rates)
                         (trafficRates s)\<rparr>)
          else (False, s)
      | None \<Rightarrow> (False, s))"

text \<open>The assignment \<^verbatim>\<open>link.capacity = newCapacity\<close> on the first link that matches.\<close>

fun set_capacity :: "node \<Rightarrow> node \<Rightarrow> int \<Rightarrow> link list \<Rightarrow> link list" where
  "set_capacity f t c [] = []"
| "set_capacity f t c (l # ls) =
     (if link_from l = f \<and> link_to l = t then l\<lparr>capacity := c\<rparr> # ls
      else l # set_capacity f t c ls)"

definition updateLinkCapacity :: "node \<Rightarrow> node \<Rightarrow> int \<Rightarrow> engine \<Rightarrow> bool \<times> engine" where
  "updateLinkCapacity f t newCapacity s =
     (case find (\<lambda>l. link_from l = f \<and> link_to l = t) (links s) of
        Some l \<Rightarrow> (True, s\<lparr>links := set_capacity f t newCapacity (links s)\<rparr>)
      | None \<Rightarrow> (False, s))"

text \<open>\<^verbatim>\<open>Array.prototype.indexOf\<close>: the first position, or \<open>-1\<close>.\<close>

fun indexOf :: "'a list \<Rightarrow> 'a \<Rightarrow> int" where
  "indexOf [] x = -1"
| "indexOf (y # ys) x =
     (if y = x then 0 else (let i = indexOf ys x in if i < 0 then -1 else i + 1))"

definition advanceTimeSlot :: "engine \<Rightarrow> engine" where
  "advanceTimeSlot s =
     (let timeSlots = map fst (trafficRates s);
          currentIndex = indexOf timeSlots (currentTime s)
      in if currentIndex < int (length timeSlots) - 1
         then s\<lparr>currentTime := timeSlots ! nat (currentIndex + 1)\<rparr>
         else s)"

section \<open>Notions used in the statements\<close>

text \<open>
  Helper notions of the statements and proofs below: none of them is part of the program.
\<close>

text \<open>The position of the current slot in \<^verbatim>\<open>Object.keys(trafficRates)\<close>.\<close>

definition slot_index :: "engine \<Rightarrow> int" where
  "slot_index s = indexOf (map fst (trafficRates s)) (currentTime s)"

text \<open>What the drain takes from the queue of key \<open>k\<close> in state \<open>s\<close>.\<close>

definition released :: "engine \<Rightarrow> string \<Rightarrow> int" where
  "released s k =
     (case map_of (queues s) k of
        None \<Rightarrow> 0
      | Some q \<Rightarrow>
          if q > 0 then (case find_link (links s) k of None \<Rightarrow> 0 | Some l \<Rightarrow> min q (capacity l))
          else 0)"

text \<open>
  A backlog example: the link D-E (capacity 60) with a backlog of 150 and every rate
  of the current slot set to zero. Three ticks empty the queue: 90, 30, 0.
\<close>

definition backlog_example :: engine where
  "backlog_example =
     initial_state
       \<lparr>queues := AList.update ''D-E'' 150 (queues initial_state),
        trafficRates :=
          AList.update ''08:00'' [(''A'', 0), (''B'', 0), (''C'', 0), (''D'', 0), (''E'', 0)]
            (trafficRates initial_state)\<rparr>"

text \<open>
  The packets waiting in the queues, and the packets accounted for so far: those counted as
  transmitted plus those waiting.
\<close>

definition backlog :: "engine \<Rightarrow> int" where
  "backlog s = sum_list (map snd (queues s))"

definition credit :: "engine \<Rightarrow> int" where
  "credit s = totalPacketsTransmitted s + backlog s"

text \<open>
  Inside a tick every recorded load is at most the capacity and no queue is negative. A key
  is free when it is no link's key or its link has room for one more packet.
\<close>

definition within_capacity :: "engine \<Rightarrow> bool" where
  "within_capacity s \<longleftrightarrow>
     (\<forall>k l. find_link (links s) k = Some l \<longrightarrow> or0 (linkLoads s) k \<le> capacity l) \<and>
     (\<forall>x\<in>set (queues s). 0 \<le> snd x)"

definition free :: "engine \<Rightarrow> string \<Rightarrow> bool" where
  "free s k \<longleftrightarrow>
     (case find_link (links s) k of None \<Rightarrow> True | Some l \<Rightarrow> or0 (linkLoads s) k < capacity l)"

text \<open>The fields a packet never writes.\<close>

definition same_config :: "engine \<Rightarrow> engine \<Rightarrow> bool" where
  "same_config s s' \<longleftrightarrow>
     links s' = links s \<and> trafficRates s' = trafficRates s \<and> currentTime s' = currentTime s \<and>
     totalPacketsGenerated s' = totalPacketsGenerated s \<and> simulationStep s' = simulationStep s"

text \<open>
  The keys a path bills, and the paths on which at most one hop can overflow: paths of one
  hop, and paths of two hops with a free key.
\<close>

fun hop_keys :: "node list \<Rightarrow> string list" where
  "hop_keys (a # b # rest) = linkKey a b # hop_keys (b # rest)"
| "hop_keys path = []"

fun light :: "engine \<Rightarrow> node list \<Rightarrow> bool" where
  "light s [a, b, c] =
     (free s (linkKey a b) \<or> (free s (linkKey b c) \<and> linkKey a b \<noteq> linkKey b c))"
| "light s (a # b # c # d # rest) = False"
| "light s [a, b] = True"
| "light s [a] = True"
| "light s [] = True"

definition packet_post :: "node list \<Rightarrow> engine \<Rightarrow> engine \<Rightarrow> bool" where
  "packet_post path s s' \<longleftrightarrow>
     within_capacity s' \<and> same_config s s' \<and> credit s' \<le> credit s + 1 \<and>
     fst ` set (nodeStats s') = fst ` set (nodeStats s) \<and>
     (\<forall>k. or0 (linkLoads s') k \<le> or0 (linkLoads s) k + int (count_list (hop_keys path) k)) \<and>
     length (packetStats s') = length (packetStats s) + (if length path < 2 then 0 else 1)"

definition ready :: "engine \<Rightarrow> bool" where
  "ready s \<longleftrightarrow>
     within_capacity s \<and> links s = default_links \<and> set nodes \<subseteq> fst ` set (nodeStats s)"

definition progress :: "nat \<Rightarrow> engine \<Rightarrow> engine \<Rightarrow> bool" where
  "progress n s s' \<longleftrightarrow>
     ready s' \<and> same_config s s' \<and> credit s' \<le> credit s + int n \<and>
     length (packetStats s') = length (packetStats s) + n"

definition tick_inv :: "engine \<Rightarrow> bool" where
  "tick_inv s \<longleftrightarrow>
     links s = default_links \<and> trafficRates s = default_trafficRates \<and>
     currentTime s = ''08:00'' \<and> set nodes \<subseteq> fst ` set (nodeStats s) \<and>
     (\<forall>x\<in>set (queues s). 0 \<le> snd x) \<and> credit s \<le> totalPacketsGenerated s"

text \<open>
  A reconfigured engine: the links A-B and B-D cut to capacity 1 and only node A sending,
  two packets a tick.
\<close>

definition narrow_example :: engine where
  "narrow_example =
     (let s1 = snd (updateLinkCapacity ''A'' ''B'' 1 initial_state);
          s2 = snd (updateLinkCapacity ''B'' ''D'' 1 s1);
          s3 = snd (updateTrafficRates ''A'' 2 s2);
          s4 = snd (updateTrafficRates ''B'' 0 s3);
          s5 = snd (updateTrafficRates ''C'' 0 s4);
          s6 = snd (updateTrafficRates ''D'' 0 s5)
      in snd (updateTrafficRates ''E'' 0 s6))"

text \<open>
  A busier slot at the default capacities: the rates of the slot 08:00 set to 81 for node B
  and to 0 for the other nodes.
\<close>

definition busy_example :: engine where
  "busy_example =
     (let s1 = snd (updateTrafficRates ''A'' 0 initial_state);
          s2 = snd (updateTrafficRates ''B'' 81 s1);
          s3 = snd (updateTrafficRates ''C'' 0 s2);
          s4 = snd (updateTrafficRates ''D'' 0 s3)
      in snd (updateTrafficRates ''E'' 0 s4))"

text \<open>
  The counters a packet from B to E touches on its path B, D, E: the loads of B-D and D-E,
  their queues, and the cumulative transmitted counter; \<open>bde_packet\<close> is what one such packet
  does to them, \<open>bde_frame\<close> what it leaves alone.
\<close>

type_synonym bde_counters = "int \<times> int \<times> int \<times> int \<times> int"

definition bde_view :: "engine \<Rightarrow> bde_counters" where
  "bde_view s = (or0 (linkLoads s) ''B-D'', or0 (linkLoads s) ''D-E'',
             or0 (queues s) ''B-D'', or0 (queues s) ''D-E'', totalPacketsTransmitted s)"

fun bde_packet :: "bde_counters \<Rightarrow> bde_counters" where
  "bde_packet (lb, ld, qb, qd, t) =
     (min 70 (lb + 1), min 60 (ld + 1), qb + max 0 (lb + 1 - 70), qd + max 0 (ld + 1 - 60),
      t + (if lb < 70 \<and> ld < 60 then 1 else 0))"

definition bde_frame :: "engine \<Rightarrow> engine \<Rightarrow> bool" where
  "bde_frame s s' \<longleftrightarrow>
     same_config s s' \<and> fst ` set (nodeStats s') = fst ` set (nodeStats s) \<and>
     map fst (queues s') = map fst (queues s) \<and>
     (\<forall>k. k \<noteq> ''B-D'' \<longrightarrow> k \<noteq> ''D-E'' \<longrightarrow> or0 (queues s') k = or0 (queues s) k)"

text \<open>What the busier example keeps from tick to tick.\<close>

definition busy_inv :: "engine \<Rightarrow> bool" where
  "busy_inv s \<longleftrightarrow>
     links s = default_links \<and>
     map_of (trafficRates s) (currentTime s) =
       Some [(''A'', 0), (''B'', 81), (''C'', 0), (''D'', 0), (''E'', 0)] \<and>
     set nodes \<subseteq> fst ` set (nodeStats s) \<and>
     map fst (queues s) = [''A-B'', ''A-C'', ''B-D'', ''C-D'', ''C-E'', ''D-E''] \<and>
     (\<forall>k. k \<noteq> ''B-D'' \<longrightarrow> k \<noteq> ''D-E'' \<longrightarrow> or0 (queues s) k = 0)"

text \<open>
  The routing graph is undirected: two nodes are adjacent when a link joins them in either
  direction. A route from \<open>s\<close> to \<open>e\<close> is a non-empty node sequence that starts at \<open>s\<close>,
  ends at \<open>e\<close> and steps along adjacent nodes.
\<close>

definition adjacent :: "link list \<Rightarrow> node \<Rightarrow> node \<Rightarrow> bool" where
  "adjacent ls a b \<longleftrightarrow>
     (\<exists>l\<in>set ls. (link_from l = a \<and> link_to l = b) \<or> (link_from l = b \<and> link_to l = a))"

fun walk :: "link list \<Rightarrow> node list \<Rightarrow> bool" where
  "walk ls (a # b # rest) = (adjacent ls a b \<and> walk ls (b # rest))"
| "walk ls [a] = True"
| "walk ls [] = False"

definition is_route :: "link list \<Rightarrow> node \<Rightarrow> node \<Rightarrow> node list \<Rightarrow> bool" where
  "is_route ls s e q \<longleftrightarrow> walk ls q \<and> hd q = s \<and> last q = e"

text \<open>An adjacency list holds, for every key, exactly the neighbours of the key, each with weight 1.\<close>

definition graph_of :: "link list \<Rightarrow> graph \<Rightarrow> bool" where
  "graph_of ls g \<longleftrightarrow>
     (\<forall>a nbs. g a = Some nbs \<longrightarrow>
        (\<forall>nb\<in>set nbs. snd nb = 1 \<and> adjacent ls a (fst nb)) \<and>
        (\<forall>b. adjacent ls a b \<longrightarrow> b \<in> fst ` set nbs))"

text \<open>\<open>reach ls start m a\<close>: some route from \<open>start\<close> to \<open>a\<close> has \<open>m\<close> links.\<close>

definition reach :: "link list \<Rightarrow> node \<Rightarrow> nat \<Rightarrow> node \<Rightarrow> bool" where
  "reach ls start m a \<longleftrightarrow> (\<exists>q. is_route ls start a q \<and> length q = Suc m)"

definition links_in :: "node list \<Rightarrow> link list \<Rightarrow> bool" where
  "links_in ns ls \<longleftrightarrow> (\<forall>l\<in>set ls. link_from l \<in> set ns \<and> link_to l \<in> set ns)"

text \<open>
  Every labelled node other than the start points to a neighbour labelled one less: from
  such tables the reconstruction loop ends and returns a route.
\<close>

definition chained :: "node list \<Rightarrow> link list \<Rightarrow> node \<Rightarrow> distances \<Rightarrow> previous \<Rightarrow> bool" where
  "chained ns ls start d p \<longleftrightarrow>
     start \<in> set ns \<and> d start = Some 0 \<and> p start = Some None \<and>
     (\<forall>a\<in>set ns. a \<noteq> start \<longrightarrow>
        (d a = Some \<infinity> \<and> p a = Some None) \<or>
        (\<exists>b m. b \<in> set ns \<and> adjacent ls b a \<and> d b = Some (enat m) \<and>
           d a = Some (enat (Suc m)) \<and> p a = Some (Some b)))"

text \<open>
  Visited nodes (those of the node list no longer in \<open>unvisited\<close>) carry their exact
  distance, and every neighbour of a visited node is labelled at most one more.
\<close>

definition dinv :: "node list \<Rightarrow> link list \<Rightarrow> node \<Rightarrow> distances \<Rightarrow> previous \<Rightarrow> node list \<Rightarrow> bool" where
  "dinv ns ls start d p u \<longleftrightarrow>
     distinct u \<and> set u \<subseteq> set ns \<and>
     start \<in> set ns \<and> d start = Some 0 \<and> p start = Some None \<and>
     (\<forall>a\<in>set ns. a \<noteq> start \<longrightarrow>
        (d a = Some \<infinity> \<and> p a = Some None) \<or>
        (\<exists>b m. b \<in> set ns \<and> b \<notin> set u \<and> adjacent ls b a \<and> d b = Some (enat m) \<and>
           d a = Some (enat (Suc m)) \<and> p a = Some (Some b))) \<and>
     (\<forall>a\<in>set ns. a \<notin> set u \<longrightarrow>
        (\<exists>n. d a = Some (enat n) \<and> (\<forall>m. reach ls start m a \<longrightarrow> n \<le> m))) \<and>
     (\<forall>a\<in>set ns. a \<notin> set u \<longrightarrow>
        (\<forall>b. adjacent ls a b \<longrightarrow> (\<exists>n m. d a = Some (enat n) \<and> d b = Some (enat m) \<and> m \<le> Suc n)))"

definition dfin :: "node list \<Rightarrow> link list \<Rightarrow> node \<Rightarrow> node \<Rightarrow> distances \<Rightarrow> previous \<Rightarrow> bool" where
  "dfin ns ls start e d p \<longleftrightarrow>
     chained ns ls start d p \<and>
     ((\<exists>n. d e = Some (enat n) \<and> (\<forall>m. reach ls start m e \<longrightarrow> n \<le> m)) \<or>
      (d e = Some \<infinity> \<and> (\<forall>m. \<not> reach ls start m e)))"

section \<open>Properties\<close>

lemma or0_update: "or0 (AList.update k v al) k' = (if k' = k then v else or0 al k')"
  by (simp add: or0_def update_conv')

subsection \<open>Link loads stay within capacity\<close>

text \<open>
  C2. A call of \<open>updateLinkLoad\<close> for the key of a link leaves that link's recorded load at
  most its capacity. When the load plus the requested amount exceeds the capacity, the load
  becomes exactly the capacity, the excess is added to the link's queue and the call returns
  false; otherwise the load grows by the amount, the queues stay as they are and the call
  returns true. The link table is not touched.
\<close>

theorem updateLinkLoad_caps_load:
  assumes "find_link (links s) k = Some l"
  shows "(case updateLinkLoad k n s of (ok, s') \<Rightarrow>
           or0 (linkLoads s') k \<le> capacity l \<and>
           (if or0 (linkLoads s) k + n > capacity l
            then \<not> ok \<and> or0 (linkLoads s') k = capacity l \<and>
                 or0 (queues s') k = or0 (queues s) k + (or0 (linkLoads s) k + n - capacity l)
            else ok \<and> or0 (linkLoads s') k = or0 (linkLoads s) k + n \<and> queues s' = queues s) \<and>
           links s' = links s)"
  using assms by (simp add: updateLinkLoad_def Let_def or0_update)

text \<open>An instance: 71 packets at once on the empty link B-D of capacity 70.\<close>

lemma links_initial: "links initial_state = default_links"
  by (simp add: initial_state_def initializeNetwork_def module_state_def Let_def default_links_def init_link_def)

theorem updateLinkLoad_caps_load_witness:
  "fst (updateLinkLoad ''B-D'' 71 initial_state) = False \<and>
   or0 (linkLoads (snd (updateLinkLoad ''B-D'' 71 initial_state))) ''B-D'' = 70 \<and>
   or0 (queues (snd (updateLinkLoad ''B-D'' 71 initial_state))) ''B-D'' = 1"
proof -
  have f: "find_link (links initial_state) ''B-D'' = Some \<lparr>link_from = ''B'', link_to = ''D'', capacity = 70\<rparr>"
    by (simp add: links_initial default_links_def find_link_def linkKey_def)
  have l: "or0 (linkLoads initial_state) ''B-D'' = 0" "or0 (queues initial_state) ''B-D'' = 0"
    by (simp_all add: initial_state_def initializeNetwork_def module_state_def Let_def default_links_def init_link_def linkKey_def or0_def)
  show ?thesis
    using updateLinkLoad_caps_load [OF f, of 71] l
    by (simp split: prod.splits)
qed

subsection \<open>Starting a run\<close>

lemma fold_init_link_frame:
  "trafficRates (fold init_link ls s) = trafficRates s \<and>
   links (fold init_link ls s) = links s \<and>
   currentTime (fold init_link ls s) = currentTime s \<and>
   isRunning (fold init_link ls s) = isRunning s \<and>
   simulationStep (fold init_link ls s) = simulationStep s \<and>
   packetStats (fold init_link ls s) = packetStats s \<and>
   nodeStats (fold init_link ls s) = nodeStats s \<and>
   totalPacketsGenerated (fold init_link ls s) = totalPacketsGenerated s \<and>
   totalPacketsTransmitted (fold init_link ls s) = totalPacketsTransmitted s"
  by (induction ls arbitrary: s) (simp_all add: init_link_def Let_def)

lemma fold_init_link_tables:
  "linkLoads (fold init_link ls s) =
     fold (\<lambda>l al. AList.update (linkKey (link_from l) (link_to l)) 0 al) ls (linkLoads s) \<and>
   queues (fold init_link ls s) =
     fold (\<lambda>l al. AList.update (linkKey (link_from l) (link_to l)) 0 al) ls (queues s)"
  by (induction ls arbitrary: s) (simp_all add: init_link_def Let_def)

lemma fold_update0:
  "(\<forall>k. or0 al k = 0) \<Longrightarrow> or0 (fold (\<lambda>l al. AList.update (f l) 0 al) ls al) k = 0"
  by (induction ls arbitrary: al) (simp_all add: or0_update)

lemma initializeNetwork_tables:
  "or0 (linkLoads (initializeNetwork s)) k = 0" "or0 (queues (initializeNetwork s)) k = 0"
proof -
  have e: "\<forall>k. or0 [] k = 0" by (simp add: or0_def)
  show "or0 (linkLoads (initializeNetwork s)) k = 0" "or0 (queues (initializeNetwork s)) k = 0"
    by (simp_all add: initializeNetwork_def Let_def fold_init_link_tables fold_init_link_frame fold_update0 [OF e])
qed

text \<open>
  C8. \<open>startSimulation\<close> sets the running flag and puts every link load and every queue
  back to zero; the cumulative counters of generated and transmitted packets, the tick
  counter and the selected time slot keep the values they had before the call.
\<close>

theorem startSimulation_frame:
  "isRunning (startSimulation s) = True \<and>
   (\<forall>k. or0 (linkLoads (startSimulation s)) k = 0 \<and> or0 (queues (startSimulation s)) k = 0) \<and>
   totalPacketsGenerated (startSimulation s) = totalPacketsGenerated s \<and>
   totalPacketsTransmitted (startSimulation s) = totalPacketsTransmitted s \<and>
   simulationStep (startSimulation s) = simulationStep s \<and>
   currentTime (startSimulation s) = currentTime s"
  by (simp add: startSimulation_def initializeNetwork_tables)
    (simp add: initializeNetwork_def Let_def fold_init_link_frame)

theorem startSimulation_frame_witness:
  "isRunning (startSimulation initial_state) = True \<and>
   or0 (queues (startSimulation initial_state)) ''B-D'' = 0 \<and>
   currentTime (startSimulation initial_state) = currentTime initial_state"
  using startSimulation_frame [of initial_state] by simp

subsection \<open>Reading the statistics\<close>

text \<open>
  C9. \<open>getNetworkStats\<close> is a pure read: the state after the call is the state before
  it, and a second call right after the first returns the same snapshot.
\<close>

theorem getNetworkStats_pure:
  "snd (getNetworkStats s) = s \<and>
   fst (getNetworkStats (snd (getNetworkStats s))) = fst (getNetworkStats s)"
  by (simp add: getNetworkStats_def)

theorem getNetworkStats_pure_witness:
  "snd (getNetworkStats initial_state) = initial_state \<and>
   fst (getNetworkStats (snd (getNetworkStats initial_state))) = fst (getNetworkStats initial_state)"
  using getNetworkStats_pure [of initial_state] by simp

subsection \<open>Advancing the time slot\<close>

lemma indexOf_ge: "- 1 \<le> indexOf xs x"
  by (induction xs) (auto simp: Let_def)

lemma indexOf_lt: "indexOf xs x < int (length xs)"
  by (induction xs) (auto simp: Let_def)

lemma indexOf_nth: "distinct xs \<Longrightarrow> i < length xs \<Longrightarrow> indexOf xs (xs ! i) = int i"
proof (induction xs arbitrary: i)
  case Nil then show ?case by simp
next
  case (Cons y ys)
  show ?case
  proof (cases i)
    case 0 then show ?thesis by simp
  next
    case (Suc j)
    with Cons show ?thesis by (auto simp: Let_def)
  qed
qed

lemma advance_tables: "trafficRates (advanceTimeSlot s) = trafficRates s"
  by (simp add: advanceTimeSlot_def Let_def)

lemma advance_pow_tables: "trafficRates ((advanceTimeSlot ^^ n) s) = trafficRates s"
  by (induction n) (simp_all add: advance_tables)

lemma advance_index:
  assumes "distinct (map fst (trafficRates s))"
  shows "slot_index (advanceTimeSlot s) = min (slot_index s + 1) (int (length (trafficRates s)) - 1)"
proof (cases "slot_index s < int (length (trafficRates s)) - 1")
  case True
  have "- 1 \<le> slot_index s" by (simp add: slot_index_def indexOf_ge)
  with True have "nat (slot_index s + 1) < length (map fst (trafficRates s))" by simp
  from indexOf_nth [OF assms this] True \<open>- 1 \<le> slot_index s\<close> show ?thesis
    by (simp add: advanceTimeSlot_def Let_def slot_index_def)
next
  case False
  moreover have "slot_index s < int (length (trafficRates s))"
    using indexOf_lt [of "map fst (trafficRates s)" "currentTime s"] by (simp add: slot_index_def)
  ultimately show ?thesis
    by (simp add: advanceTimeSlot_def Let_def slot_index_def)
qed

lemma advance_pow_index:
  assumes "distinct (map fst (trafficRates s))"
  shows "slot_index ((advanceTimeSlot ^^ n) s) = min (slot_index s + int n) (int (length (trafficRates s)) - 1)"
proof (induction n)
  case 0
  have "slot_index s < int (length (trafficRates s))"
    using indexOf_lt [of "map fst (trafficRates s)" "currentTime s"] by (simp add: slot_index_def)
  then show ?case by simp
next
  case (Suc n)
  have d: "distinct (map fst (trafficRates ((advanceTimeSlot ^^ n) s)))"
    by (simp add: advance_pow_tables assms)
  show ?case
    using advance_index [OF d] Suc by (simp add: advance_pow_tables)
qed

lemma index_last:
  assumes "distinct xs" "xs \<noteq> []" "indexOf xs x = int (length xs) - 1"
  shows "x = last xs"
proof -
  have "indexOf xs x \<ge> 0 \<Longrightarrow> xs ! nat (indexOf xs x) = x" for x
    by (induction xs) (auto simp: Let_def nat_add_distrib split: if_splits)
  note nth = this
  from assms(2) have "0 < length xs" by simp
  then have "0 \<le> indexOf xs x" and "nat (indexOf xs x) = length xs - 1"
    using assms(3) by simp_all
  with nth [of x] have "xs ! (length xs - 1) = x" by simp
  with assms(2) show ?thesis by (simp add: last_conv_nth)
qed

text \<open>
  C7. The slot labels are the keys of the rate table, in order. From a slot that is not the
  last one \<open>advanceTimeSlot\<close> moves to the next slot of the table and changes nothing else. At
  the last slot it changes nothing, and after any number of calls that is at least the
  number of slots the current slot is the last one: it saturates and never wraps.
\<close>

theorem advanceTimeSlot_next_then_saturates:
  assumes "distinct (map fst (trafficRates s))" and "trafficRates s \<noteq> []"
  shows "(\<forall>i. i + 1 < length (trafficRates s) \<and> currentTime s = map fst (trafficRates s) ! i \<longrightarrow>
            advanceTimeSlot s = s\<lparr>currentTime := map fst (trafficRates s) ! (i + 1)\<rparr>) \<and>
         (currentTime s = last (map fst (trafficRates s)) \<longrightarrow> advanceTimeSlot s = s) \<and>
         (\<forall>n \<ge> length (trafficRates s).
            currentTime ((advanceTimeSlot ^^ n) s) = last (map fst (trafficRates s)))"
proof (intro conjI impI allI)
  fix i
  assume a: "i + 1 < length (trafficRates s) \<and> currentTime s = map fst (trafficRates s) ! i"
  then have "i < length (map fst (trafficRates s))" by simp
  from indexOf_nth [OF assms(1) this] a
  have "indexOf (map fst (trafficRates s)) (currentTime s) = int i" by simp
  with a show "advanceTimeSlot s = s\<lparr>currentTime := map fst (trafficRates s) ! (i + 1)\<rparr>"
    by (simp add: advanceTimeSlot_def Let_def nat_add_distrib)
next
  assume c: "currentTime s = last (map fst (trafficRates s))"
  have "last (map fst (trafficRates s)) = map fst (trafficRates s) ! (length (trafficRates s) - 1)"
    using assms(2) by (simp add: last_conv_nth)
  then have "slot_index s = int (length (trafficRates s) - 1)"
    using indexOf_nth [OF assms(1), of "length (trafficRates s) - 1"] assms(2) c
    by (simp add: slot_index_def)
  then show "advanceTimeSlot s = s"
    using assms(2) by (simp add: advanceTimeSlot_def Let_def slot_index_def of_nat_diff)
next
  fix n assume n: "length (trafficRates s) \<le> n"
  let ?t = "(advanceTimeSlot ^^ n) s"
  have "- 1 \<le> slot_index s" by (simp add: slot_index_def indexOf_ge)
  with n have "slot_index ?t = int (length (trafficRates s)) - 1"
    using advance_pow_index [OF assms(1), of n] by simp
  then have "indexOf (map fst (trafficRates s)) (currentTime ?t) = int (length (map fst (trafficRates s))) - 1"
    by (simp add: slot_index_def advance_pow_tables)
  from index_last [OF assms(1) _ this] assms(2)
  show "currentTime ?t = last (map fst (trafficRates s))" by simp
qed

lemma currentTime_initial: "currentTime initial_state = ''08:00''"
  by (simp add: initial_state_def initializeNetwork_def module_state_def Let_def fold_init_link_frame)

lemma trafficRates_initial: "trafficRates initial_state = default_trafficRates"
  by (simp add: initial_state_def initializeNetwork_def module_state_def Let_def fold_init_link_frame)

theorem advanceTimeSlot_next_then_saturates_witness:
  "advanceTimeSlot initial_state = initial_state\<lparr>currentTime := ''08:15''\<rparr> \<and>
   advanceTimeSlot (advanceTimeSlot initial_state) = initial_state\<lparr>currentTime := ''08:30''\<rparr> \<and>
   currentTime ((advanceTimeSlot ^^ 4) initial_state) = ''08:45'' \<and>
   currentTime ((advanceTimeSlot ^^ 9) initial_state) = ''08:45'' \<and>
   advanceTimeSlot ((advanceTimeSlot ^^ 4) initial_state) = (advanceTimeSlot ^^ 4) initial_state"
proof -
  let ?s = "(advanceTimeSlot ^^ 4) initial_state"
  let ?s1 = "initial_state\<lparr>currentTime := ''08:15''\<rparr>"
  have d: "distinct (map fst (trafficRates initial_state))" and n: "trafficRates initial_state \<noteq> []"
    by (simp_all add: trafficRates_initial default_trafficRates_def)
  have d1: "distinct (map fst (trafficRates ?s1))" and n1: "trafficRates ?s1 \<noteq> []"
    using d n by simp_all
  have d': "distinct (map fst (trafficRates ?s))" and n': "trafficRates ?s \<noteq> []"
    using d n by (simp_all add: advance_pow_tables)
  have l: "last (map fst (trafficRates initial_state)) = ''08:45''"
    and k: "length (trafficRates initial_state) = 4"
    by (simp_all add: trafficRates_initial default_trafficRates_def)
  have "0 + 1 < length (trafficRates initial_state) \<and>
      currentTime initial_state = map fst (trafficRates initial_state) ! 0"
    by (simp add: trafficRates_initial default_trafficRates_def currentTime_initial)
  from conjunct1 [OF advanceTimeSlot_next_then_saturates [OF d n], rule_format, OF this]
  have x: "advanceTimeSlot initial_state = ?s1"
    by (simp add: trafficRates_initial default_trafficRates_def)
  have "1 + 1 < length (trafficRates ?s1) \<and> currentTime ?s1 = map fst (trafficRates ?s1) ! 1"
    by (simp add: trafficRates_initial default_trafficRates_def)
  from conjunct1 [OF advanceTimeSlot_next_then_saturates [OF d1 n1], rule_format, OF this]
  have y: "advanceTimeSlot ?s1 = initial_state\<lparr>currentTime := ''08:30''\<rparr>"
    by (simp add: trafficRates_initial default_trafficRates_def)
  from advanceTimeSlot_next_then_saturates [OF d n] l k
  have a: "currentTime ?s = ''08:45''" and b: "currentTime ((advanceTimeSlot ^^ 9) initial_state) = ''08:45''"
    by simp_all
  have "currentTime ?s = last (map fst (trafficRates ?s))"
    using a l by (simp add: advance_pow_tables)
  with advanceTimeSlot_next_then_saturates [OF d' n'] have "advanceTimeSlot ?s = ?s" by blast
  with a b x y show ?thesis by simp
qed

subsection \<open>Administrative mutators\<close>

lemma set_capacity_find:
  "find (\<lambda>l. link_from l = f \<and> link_to l = t) ls = Some l \<Longrightarrow>
   find (\<lambda>l. link_from l = f \<and> link_to l = t) (set_capacity f t c ls) = Some (l\<lparr>capacity := c\<rparr>) \<and>
   map link_from (set_capacity f t c ls) = map link_from ls \<and>
   map link_to (set_capacity f t c ls) = map link_to ls"
  by (induction ls) (auto split: if_splits)

text \<open>
  C5, as the code has it. The two administrative mutators look their target up and nothing
  else: for a node that is not in the node set, or a pair that is no link's \<open>(from, to)\<close>,
  they return false and leave the state as it is; for a node of the node set (the current
  slot having a rate table) and for an existing link they store the given value, whatever its
  sign, and return true.
\<close>

theorem core_mutators_store_any_value:
  "(nodeId \<notin> set nodes \<longrightarrow> updateTrafficRates nodeId newRate s = (False, s)) \<and>
   (nodeId \<in> set nodes \<and> map_of (trafficRates s) (currentTime s) = Some rates \<longrightarrow>
      fst (updateTrafficRates nodeId newRate s) = True \<and>
      map_of (trafficRates (snd (updateTrafficRates nodeId newRate s))) (currentTime s)
        = Some (AList.update nodeId newRate rates)) \<and>
   (find (\<lambda>l. link_from l = f \<and> link_to l = t) (links s) = None \<longrightarrow>
      updateLinkCapacity f t newCapacity s = (False, s)) \<and>
   (find (\<lambda>l. link_from l = f \<and> link_to l = t) (links s) = Some l \<longrightarrow>
      fst (updateLinkCapacity f t newCapacity s) = True \<and>
      find (\<lambda>l. link_from l = f \<and> link_to l = t) (links (snd (updateLinkCapacity f t newCapacity s)))
        = Some (l\<lparr>capacity := newCapacity\<rparr>))"
  by (auto simp: updateTrafficRates_def updateLinkCapacity_def update_conv' set_capacity_find
      split: option.splits)

text \<open>
  A negative rate and a capacity of zero are accepted: both calls return true and the tables
  hold the new values.
\<close>

theorem core_mutators_accept_invalid_counterexample:
  "fst (updateTrafficRates ''A'' (- 5) initial_state) = True \<and>
   map_of (trafficRates (snd (updateTrafficRates ''A'' (- 5) initial_state))) ''08:00''
     = Some [(''A'', - 5), (''B'', 30), (''C'', 40), (''D'', 20), (''E'', 60)] \<and>
   fst (updateLinkCapacity ''A'' ''B'' 0 initial_state) = True \<and>
   map capacity (links (snd (updateLinkCapacity ''A'' ''B'' 0 initial_state)))
     = [0, 80, 70, 90, 100, 60]"
  by (simp add: updateTrafficRates_def updateLinkCapacity_def trafficRates_initial links_initial
      currentTime_initial default_trafficRates_def default_links_def nodes_def)

theorem core_mutators_store_any_value_witness:
  "updateTrafficRates ''Z'' 7 initial_state = (False, initial_state) \<and>
   fst (updateTrafficRates ''B'' (- 1) initial_state) = True \<and>
   map_of (trafficRates (snd (updateTrafficRates ''B'' (- 1) initial_state))) ''08:00''
     = Some [(''A'', 50), (''B'', - 1), (''C'', 40), (''D'', 20), (''E'', 60)] \<and>
   updateLinkCapacity ''B'' ''A'' 7 initial_state = (False, initial_state) \<and>
   fst (updateLinkCapacity ''D'' ''E'' (- 3) initial_state) = True \<and>
   find (\<lambda>l. link_from l = ''D'' \<and> link_to l = ''E'')
      (links (snd (updateLinkCapacity ''D'' ''E'' (- 3) initial_state)))
     = Some \<lparr>link_from = ''D'', link_to = ''E'', capacity = - 3\<rparr>"
proof -
  have a: "''Z'' \<notin> set nodes" and b: "''B'' \<in> set nodes" by (simp_all add: nodes_def)
  have r: "map_of (trafficRates initial_state) (currentTime initial_state)
             = Some [(''A'', 50), (''B'', 30), (''C'', 40), (''D'', 20), (''E'', 60)]"
    by (simp add: trafficRates_initial currentTime_initial default_trafficRates_def)
  have n: "find (\<lambda>l. link_from l = ''B'' \<and> link_to l = ''A'') (links initial_state) = None"
    by (simp add: links_initial default_links_def)
  have y: "find (\<lambda>l. link_from l = ''D'' \<and> link_to l = ''E'') (links initial_state)
             = Some \<lparr>link_from = ''D'', link_to = ''E'', capacity = 60\<rparr>"
    by (simp add: links_initial default_links_def)
  from core_mutators_store_any_value [of "''Z''" 7 initial_state _ "''B''" "''A''" 7] a n
  have 1: "updateTrafficRates ''Z'' 7 initial_state = (False, initial_state)"
          "updateLinkCapacity ''B'' ''A'' 7 initial_state = (False, initial_state)"
    by blast+
  from core_mutators_store_any_value [of "''B''" "- 1" initial_state _ "''D''" "''E''" "- 3", OF ] b r y
  show ?thesis using 1 by (simp add: currentTime_initial)
qed

subsection \<open>A route from a node to itself\<close>

lemma init_tables_d:
  "fst (init_tables start ns (d, p, u)) n =
     (if n \<in> set ns then Some (if n = start then 0 else \<infinity>) else d n)"
  by (induction ns arbitrary: d p u) simp_all

lemma init_tables_p:
  "fst (snd (init_tables start ns (d, p, u))) n = (if n \<in> set ns then Some None else p n)"
  by (induction ns arbitrary: d p u) simp_all

lemma init_tables_u:
  "set (snd (snd (init_tables start ns (d, p, u)))) = set u \<union> set ns"
  by (induction ns arbitrary: d p u) (simp_all add: set_add_def insert_absorb)

lemma init_tables_distinct:
  "distinct u \<Longrightarrow> distinct (snd (snd (init_tables start ns (d, p, u))))"
  by (induction ns arbitrary: d p u) (simp_all add: set_add_def)

lemma dom_init_graph: "dom (init_graph ns g) = dom g \<union> set ns"
  by (induction ns arbitrary: g) simp_all

lemma add_edge_ok:
  assumes "link_from l \<in> dom g" and "link_to l \<in> dom g"
  shows "\<exists>g'. add_edge l g = Inr g' \<and> dom g' = dom g"
proof -
  from assms(1) obtain ns where ns: "g (link_from l) = Some ns" by blast
  let ?g1 = "g(link_from l \<mapsto> ns @ [(link_to l, 1)])"
  from assms(2) have "link_to l \<in> dom ?g1" by simp
  then obtain ms where ms: "?g1 (link_to l) = Some ms" by blast
  have "add_edge l g = Inr (?g1(link_to l \<mapsto> ms @ [(link_from l, 1)]))"
    unfolding add_edge_def ns Let_def using ms by simp
  moreover have "dom (?g1(link_to l \<mapsto> ms @ [(link_from l, 1)])) = dom g"
    using assms by (simp add: insert_absorb)
  ultimately show ?thesis by blast
qed

lemma add_edges_ok:
  "\<forall>l\<in>set ls. link_from l \<in> dom g \<and> link_to l \<in> dom g \<Longrightarrow>
   \<exists>g'. add_edges ls g = Inr g' \<and> dom g' = dom g"
proof (induction ls arbitrary: g)
  case Nil
  then show ?case by simp
next
  case (Cons l ls)
  from Cons.prems have "link_from l \<in> dom g" "link_to l \<in> dom g" by simp_all
  from add_edge_ok [OF this] obtain g1 where g1: "add_edge l g = Inr g1" "dom g1 = dom g"
    by blast
  from Cons.prems g1 have "\<forall>l\<in>set ls. link_from l \<in> dom g1 \<and> link_to l \<in> dom g1" by simp
  from Cons.IH [OF this] g1 show ?case by simp
qed

lemma find_min_start:
  assumes "\<forall>n\<in>set u. n \<noteq> s \<longrightarrow> d n = Some \<infinity>" and "d s = Some 0"
    and "acc = (None, \<infinity>) \<and> s \<in> set u \<or> acc = (Some s, 0)"
  shows "find_min d u acc = (Some s, 0)"
  using assms
proof (induction u arbitrary: acc)
  case Nil
  then show ?case by simp
next
  case (Cons n u)
  show ?case
  proof (cases "n = s")
    case True
    with Cons.prems have "find_min d (n # u) acc = find_min d u (Some s, 0)"
      by (auto simp: zero_enat_def)
    with Cons show ?thesis by simp
  next
    case False
    with Cons.prems have "find_min d (n # u) acc = find_min d u acc"
      by auto
    with Cons False show ?thesis by simp
  qed
qed

lemma dijkstra_self:
  assumes "s \<in> set ns" and "\<forall>l\<in>set ls. link_from l \<in> set ns \<and> link_to l \<in> set ns"
  shows "dijkstra ns ls s s = Inr [s]"
proof -
  obtain d0 p0 u0 where i: "init_tables s ns (Map.empty, Map.empty, []) = (d0, p0, u0)"
    by (metis prod_cases3)
  have rd: "\<And>n. d0 n = (if n \<in> set ns then Some (if n = s then 0 else \<infinity>) else None)"
    using init_tables_d [of s ns Map.empty Map.empty "[]"] by (simp add: i)
  have rp: "\<And>n. p0 n = (if n \<in> set ns then Some None else None)"
    using init_tables_p [of s ns Map.empty Map.empty "[]"] by (simp add: i)
  have ru: "set u0 = set ns"
    using init_tables_u [of s ns Map.empty Map.empty "[]"] by (simp add: i)
  from rd assms(1) have d0: "d0 s = Some 0" by simp
  from rp assms(1) have p0: "p0 s = Some None" by simp
  from ru assms(1) have u0: "s \<in> set u0" by simp
  from rd ru have inf: "\<forall>n\<in>set u0. n \<noteq> s \<longrightarrow> d0 n = Some \<infinity>" by simp
  obtain g where g: "add_edges ls (init_graph ns Map.empty) = Inr g"
  proof -
    have "\<forall>l\<in>set ls. link_from l \<in> dom (init_graph ns Map.empty) \<and> link_to l \<in> dom (init_graph ns Map.empty)"
      using assms(2) by (simp add: dom_init_graph)
    from add_edges_ok [OF this] that show ?thesis by blast
  qed
  have fm: "find_min d0 u0 (None, \<infinity>) = (Some s, 0)"
    using find_min_start [OF inf d0] u0 by simp
  from u0 have "0 < length u0" by (cases u0) auto
  then have ml: "main_loop g s (d0, p0, u0) = (d0, p0, removeAll s u0)"
    using fm d0 by (subst main_loop.simps) (simp add: Let_def)
  have "reconstruct p0 (Some s) [] = reconstruct p0 None [s]"
    by (subst reconstruct.simps) (simp add: p0)
  also have "\<dots> = Some [s]"
    by (subst reconstruct.simps) simp
  finally have rc: "reconstruct p0 (Some s) [] = Some [s]" .
  show ?thesis
    by (simp add: dijkstra_def i g ml rc)
qed

lemma getRandomDestination_other:
  "\<exists>d. getRandomDestination source r = Some d \<and> d \<noteq> source \<and> d \<in> set nodes"
proof -
  let ?av = "filter (\<lambda>n. n \<noteq> source) nodes"
  have "''A'' \<noteq> source \<or> ''B'' \<noteq> source" by auto
  then have ne: "?av \<noteq> []" by (auto simp: nodes_def filter_empty_conv)
  then have "r mod length ?av < length ?av" by simp
  from nth_mem [OF this] have "?av ! (r mod length ?av) \<in> {n \<in> set nodes. n \<noteq> source}"
    by (simp only: set_filter)
  with ne show ?thesis
    by (simp add: getRandomDestination_def Let_def)
qed

text \<open>
  C10. For a node \<open>s\<close> of the node set (every link joining nodes of the node set) the router
  returns the one-element path \<open>[s]\<close> from \<open>s\<close> to itself. A path of fewer than two nodes
  is dropped by the per-packet guard with the state untouched, so no link capacity is used.
  The destination drawn for a packet is never its source.
\<close>

theorem self_route_singleton_and_discarded:
  "(s \<in> set ns \<and> (\<forall>l\<in>set ls. link_from l \<in> set ns \<and> link_to l \<in> set ns) \<longrightarrow>
      dijkstra ns ls s s = Inr [s]) \<and>
   (length path < 2 \<longrightarrow> send_packet source destination i path st = Inr st) \<and>
   (\<exists>d. getRandomDestination source r = Some d \<and> d \<noteq> source)"
proof (intro conjI impI)
  assume "s \<in> set ns \<and> (\<forall>l\<in>set ls. link_from l \<in> set ns \<and> link_to l \<in> set ns)"
  then show "dijkstra ns ls s s = Inr [s]" using dijkstra_self [of s ns ls] by blast
next
  assume "length path < 2"
  then show "send_packet source destination i path st = Inr st" by (simp add: send_packet_def)
next
  show "\<exists>d. getRandomDestination source r = Some d \<and> d \<noteq> source"
    using getRandomDestination_other [of source r] by blast
qed

theorem self_route_singleton_and_discarded_witness:
  "dijkstra nodes default_links ''C'' ''C'' = Inr [''C''] \<and>
   send_packet ''C'' ''C'' 0 [''C''] initial_state = Inr initial_state \<and>
   getRandomDestination ''C'' 2 = Some ''D''"
proof -
  have a: "''C'' \<in> set nodes \<and> (\<forall>l\<in>set default_links. link_from l \<in> set nodes \<and> link_to l \<in> set nodes)"
    by (simp add: nodes_def default_links_def)
  have b: "length [''C''] < 2" by simp
  have c: "getRandomDestination ''C'' 2 = Some ''D''"
    by (simp add: getRandomDestination_def nodes_def)
  note t = self_route_singleton_and_discarded [of "''C''" nodes default_links "[''C'']" "''C''" "''C''" 0 initial_state 2]
  from t a have 1: "dijkstra nodes default_links ''C'' ''C'' = Inr [''C'']" by blast
  from t b have 2: "send_packet ''C'' ''C'' 0 [''C''] initial_state = Inr initial_state" by blast
  from 1 2 c show ?thesis by blast
qed

subsection \<open>Draining the backlog\<close>

lemma drain_key_frame:
  "links (drain_key k s) = links s \<and> trafficRates (drain_key k s) = trafficRates s \<and>
   currentTime (drain_key k s) = currentTime s \<and> linkLoads (drain_key k s) = linkLoads s \<and>
   packetStats (drain_key k s) = packetStats s \<and> nodeStats (drain_key k s) = nodeStats s \<and>
   totalPacketsGenerated (drain_key k s) = totalPacketsGenerated s \<and>
   simulationStep (drain_key k s) = simulationStep s \<and> isRunning (drain_key k s) = isRunning s"
  by (simp add: drain_key_def Let_def split: option.splits)

lemma drain_key_total:
  "totalPacketsTransmitted (drain_key k s) = totalPacketsTransmitted s + released s k"
  by (simp add: drain_key_def released_def Let_def split: option.splits)

lemma drain_key_queue:
  "map_of (queues (drain_key k s)) k' =
     (if k' = k then map_option (\<lambda>q. q - released s k) (map_of (queues s) k)
      else map_of (queues s) k')"
  by (simp add: drain_key_def released_def Let_def update_conv' split: option.splits)

lemma released_drain_other:
  "k' \<noteq> k \<Longrightarrow> released (drain_key k s) k' = released s k'"
  by (simp add: released_def drain_key_queue drain_key_frame cong: option.case_cong if_cong)

lemma fold_drain_frame:
  "links (fold drain_key ks s) = links s \<and> trafficRates (fold drain_key ks s) = trafficRates s \<and>
   currentTime (fold drain_key ks s) = currentTime s \<and> linkLoads (fold drain_key ks s) = linkLoads s \<and>
   packetStats (fold drain_key ks s) = packetStats s \<and> nodeStats (fold drain_key ks s) = nodeStats s \<and>
   totalPacketsGenerated (fold drain_key ks s) = totalPacketsGenerated s \<and>
   simulationStep (fold drain_key ks s) = simulationStep s \<and> isRunning (fold drain_key ks s) = isRunning s"
  by (induction ks arbitrary: s) (simp_all add: drain_key_frame)

lemma fold_drain_queue:
  "distinct ks \<Longrightarrow>
   map_of (queues (fold drain_key ks s)) k' =
     (if k' \<in> set ks then map_option (\<lambda>q. q - released s k') (map_of (queues s) k')
      else map_of (queues s) k')"
proof (induction ks arbitrary: s)
  case Nil
  then show ?case by simp
next
  case (Cons k ks)
  then have d: "distinct ks" and n: "k \<notin> set ks" by simp_all
  show ?case
  proof (cases "k' = k")
    case True
    with n Cons.IH [OF d, of "drain_key k s"] show ?thesis
      by (simp add: drain_key_queue)
  next
    case False
    with Cons.IH [OF d, of "drain_key k s"] show ?thesis
      by (simp add: drain_key_queue released_drain_other)
  qed
qed

lemma fold_drain_total:
  "distinct ks \<Longrightarrow>
   totalPacketsTransmitted (fold drain_key ks s) =
     totalPacketsTransmitted s + sum_list (map (released s) ks)"
proof (induction ks arbitrary: s)
  case Nil
  then show ?case by simp
next
  case (Cons k ks)
  then have d: "distinct ks" and n: "k \<notin> set ks" by simp_all
  have "map (released (drain_key k s)) ks = map (released s) ks"
    using n by (intro map_cong refl released_drain_other) auto
  with Cons.IH [OF d, of "drain_key k s"] show ?case
    by (simp add: drain_key_total)
qed

text \<open>
  C3. The drain takes, from every link whose queue is positive, exactly the minimum of the
  queue length and the capacity: the queue stays at or above zero, no more than one
  capacity's worth leaves it, and the cumulative transmitted counter grows by the sum of
  what was taken. In a tick the drain runs on the cleared state, before the loop that
  generates the new traffic.
\<close>

theorem backlog_drained_before_generation:
  assumes "distinct (map fst (queues s))"
  shows
    "(\<forall>k q l. map_of (queues s) k = Some q \<and> 0 < q \<and> find_link (links s) k = Some l \<longrightarrow>
        map_of (queues (processQueuedPackets s)) k = Some (q - min q (capacity l)) \<and>
        0 \<le> q - min q (capacity l) \<and> min q (capacity l) \<le> capacity l) \<and>
     totalPacketsTransmitted (processQueuedPackets s) =
       totalPacketsTransmitted s + sum_list (map (released s) (map fst (queues s))) \<and>
     (\<forall>rates. map_of (trafficRates s) (currentTime s) = Some rates \<longrightarrow>
        simulateTick rnd s =
          (case source_loop rnd rates
                  (processQueuedPackets (s\<lparr>linkLoads := [], packetStats := []\<rparr>), 0) of
             Inl e \<Rightarrow> Inl e
           | Inr (s3, generated) \<Rightarrow>
               Inr (s3\<lparr>totalPacketsGenerated := totalPacketsGenerated s3 + generated,
                       simulationStep := simulationStep s3 + 1\<rparr>)))"
proof (intro conjI allI impI)
  fix k q l
  assume a: "map_of (queues s) k = Some q \<and> 0 < q \<and> find_link (links s) k = Some l"
  then have "k \<in> set (map fst (queues s))"
    by (metis map_of_eq_None_iff option.distinct(1) set_map)
  with a fold_drain_queue [OF assms, of s k]
  show "map_of (queues (processQueuedPackets s)) k = Some (q - min q (capacity l))"
    by (simp add: processQueuedPackets_def released_def)
  show "0 \<le> q - min q (capacity l)" by simp
  show "min q (capacity l) \<le> capacity l" by simp
next
  show "totalPacketsTransmitted (processQueuedPackets s) =
       totalPacketsTransmitted s + sum_list (map (released s) (map fst (queues s)))"
    using fold_drain_total [OF assms, of s] by (simp add: processQueuedPackets_def)
next
  fix rates
  assume "map_of (trafficRates s) (currentTime s) = Some rates"
  then show "simulateTick rnd s =
          (case source_loop rnd rates
                  (processQueuedPackets (s\<lparr>linkLoads := [], packetStats := []\<rparr>), 0) of
             Inl e \<Rightarrow> Inl e
           | Inr (s3, generated) \<Rightarrow>
               Inr (s3\<lparr>totalPacketsGenerated := totalPacketsGenerated s3 + generated,
                       simulationStep := simulationStep s3 + 1\<rparr>))"
    by (simp add: simulateTick_def Let_def)
qed

lemma initial_state_eq:
  "initial_state =
    \<lparr>trafficRates = default_trafficRates, links = default_links,
     currentTime = ''08:00'', isRunning = False, simulationStep = 0,
     queues = [(''A-B'', 0), (''A-C'', 0), (''B-D'', 0), (''C-D'', 0), (''C-E'', 0), (''D-E'', 0)],
     linkLoads = [(''A-B'', 0), (''A-C'', 0), (''B-D'', 0), (''C-D'', 0), (''C-E'', 0), (''D-E'', 0)],
     packetStats = [],
     nodeStats = [(''A'', zero_stats), (''B'', zero_stats), (''C'', zero_stats),
                  (''D'', zero_stats), (''E'', zero_stats)],
     totalPacketsGenerated = 0, totalPacketsTransmitted = 0\<rparr>"
  by (simp add: initial_state_def initializeNetwork_def module_state_def Let_def default_links_def
      init_link_def linkKey_def nodes_def)

lemma backlog_example_ticks:
  "(case ticks [\<lambda>_ _. 0] backlog_example of
      Inr s \<Rightarrow> or0 (queues s) ''D-E'' = 90 \<and> totalPacketsTransmitted s = 60 | Inl e \<Rightarrow> False) \<and>
   (case ticks [\<lambda>_ _. 0, \<lambda>_ _. 0] backlog_example of
      Inr s \<Rightarrow> or0 (queues s) ''D-E'' = 30 \<and> totalPacketsTransmitted s = 120 | Inl e \<Rightarrow> False) \<and>
   (case ticks [\<lambda>_ _. 0, \<lambda>_ _. 0, \<lambda>_ _. 0] backlog_example of
      Inr s \<Rightarrow> or0 (queues s) ''D-E'' = 0 \<and> totalPacketsTransmitted s = 150 | Inl e \<Rightarrow> False)"
  by code_simp

theorem backlog_drained_before_generation_witness:
  "map_of (queues (processQueuedPackets backlog_example)) ''D-E'' = Some 90 \<and>
   totalPacketsTransmitted (processQueuedPackets backlog_example) = 60 \<and>
   (case ticks [\<lambda>_ _. 0] backlog_example of
      Inr s \<Rightarrow> or0 (queues s) ''D-E'' = 90 \<and> totalPacketsTransmitted s = 60 | Inl e \<Rightarrow> False) \<and>
   (case ticks [\<lambda>_ _. 0, \<lambda>_ _. 0] backlog_example of
      Inr s \<Rightarrow> or0 (queues s) ''D-E'' = 30 \<and> totalPacketsTransmitted s = 120 | Inl e \<Rightarrow> False) \<and>
   (case ticks [\<lambda>_ _. 0, \<lambda>_ _. 0, \<lambda>_ _. 0] backlog_example of
      Inr s \<Rightarrow> or0 (queues s) ''D-E'' = 0 \<and> totalPacketsTransmitted s = 150 | Inl e \<Rightarrow> False)"
proof -
  have q: "queues backlog_example =
      [(''A-B'', 0), (''A-C'', 0), (''B-D'', 0), (''C-D'', 0), (''C-E'', 0), (''D-E'', 150)]"
    and l: "links backlog_example = default_links"
    and t: "totalPacketsTransmitted backlog_example = 0"
    by (simp_all add: backlog_example_def initial_state_eq)
  have d: "distinct (map fst (queues backlog_example))" by (simp add: q)
  have a: "map_of (queues backlog_example) ''D-E'' = Some 150 \<and> (0::int) < 150 \<and>
      find_link (links backlog_example) ''D-E'' = Some \<lparr>link_from = ''D'', link_to = ''E'', capacity = 60\<rparr>"
    by (simp add: q l default_links_def find_link_def linkKey_def)
  have r: "sum_list (map (released backlog_example) (map fst (queues backlog_example))) = 60"
    by (simp add: q l released_def default_links_def find_link_def linkKey_def)
  note th = backlog_drained_before_generation [OF d, of "\<lambda>_ _. 0"]
  from conjunct1 [OF th, rule_format, OF a]
  have 1: "map_of (queues (processQueuedPackets backlog_example)) ''D-E'' = Some 90"
    by simp
  from th r t have 2: "totalPacketsTransmitted (processQueuedPackets backlog_example) = 60"
    by simp
  from 1 2 backlog_example_ticks show ?thesis by simp
qed

subsection \<open>Transmitted and generated packets\<close>

lemma same_config_refl: "same_config s s"
  by (simp add: same_config_def)

lemma same_config_trans: "same_config a b \<Longrightarrow> same_config b c \<Longrightarrow> same_config a c"
  by (simp add: same_config_def)

lemma sum_update_add:
  "sum_list (map snd (AList.update k (or0 al k + e) al)) = sum_list (map snd al) + e"
  by (induction al) (auto simp: or0_def)

lemma sum_update_some:
  "map_of al k = Some (q::int) \<Longrightarrow>
   sum_list (map snd (AList.update k v al)) = sum_list (map snd al) - q + v"
  by (induction al) auto

lemma set_update_subset: "set (AList.update k v al) \<subseteq> insert (k, v) (set al)"
  by (induction al) auto

lemma or0_nonneg: "\<forall>x\<in>set al. 0 \<le> snd x \<Longrightarrow> 0 \<le> or0 al k"
  by (auto simp: or0_def dest!: map_of_SomeD split: option.splits)

lemma sum_nonneg_entries: "\<forall>x\<in>set al. (0::int) \<le> snd x \<Longrightarrow> 0 \<le> sum_list (map snd al)"
  by (induction al) auto

paragraph \<open>One hop\<close>

lemma hop_config: "same_config s (snd (updateLinkLoad k n s))"
  by (simp add: updateLinkLoad_def same_config_def Let_def split: option.splits)

lemma hop_frame:
  "totalPacketsTransmitted (snd (updateLinkLoad k n s)) = totalPacketsTransmitted s \<and>
   nodeStats (snd (updateLinkLoad k n s)) = nodeStats s \<and>
   packetStats (snd (updateLinkLoad k n s)) = packetStats s"
  by (simp add: updateLinkLoad_def Let_def split: option.splits)

lemma hop_load_other:
  "k' \<noteq> k \<Longrightarrow> or0 (linkLoads (snd (updateLinkLoad k n s))) k' = or0 (linkLoads s) k'"
  by (simp add: updateLinkLoad_def Let_def or0_update split: option.splits)

lemma hop_within:
  assumes "within_capacity s"
  shows "within_capacity (snd (updateLinkLoad k 1 s))"
proof (cases "find_link (links s) k")
  case None
  with assms show ?thesis by (simp add: updateLinkLoad_def)
next
  case (Some l)
  show ?thesis
  proof (cases "or0 (linkLoads s) k + 1 > capacity l")
    case True
    from assms have q: "\<forall>x\<in>set (queues s). 0 \<le> snd x" by (simp add: within_capacity_def)
    from assms Some have "or0 (linkLoads s) k \<le> capacity l" by (simp add: within_capacity_def)
    with True have e: "0 \<le> or0 (queues s) k + (or0 (linkLoads s) k + 1 - capacity l)"
      using or0_nonneg [OF q, of k] by simp
    have "\<forall>x\<in>set (AList.update k (or0 (queues s) k + (or0 (linkLoads s) k + 1 - capacity l)) (queues s)). 0 \<le> snd x"
      using set_update_subset [of k _ "queues s"] q e by fastforce
    with assms Some True show ?thesis
      by (simp add: updateLinkLoad_def Let_def within_capacity_def or0_update)
  next
    case False
    with assms Some show ?thesis
      by (simp add: updateLinkLoad_def Let_def within_capacity_def or0_update)
  qed
qed

lemma hop_backlog:
  assumes "within_capacity s"
  shows "backlog (snd (updateLinkLoad k 1 s)) \<le> backlog s + 1 \<and>
         backlog s \<le> backlog (snd (updateLinkLoad k 1 s)) \<and>
         (fst (updateLinkLoad k 1 s) \<longrightarrow> backlog (snd (updateLinkLoad k 1 s)) = backlog s) \<and>
         (free s k \<longrightarrow> backlog (snd (updateLinkLoad k 1 s)) = backlog s)"
proof (cases "find_link (links s) k")
  case None
  then show ?thesis by (simp add: updateLinkLoad_def)
next
  case (Some l)
  with assms have "or0 (linkLoads s) k \<le> capacity l" by (simp add: within_capacity_def)
  with Some show ?thesis
    by (simp add: updateLinkLoad_def Let_def backlog_def free_def sum_update_add)
qed

lemma hop_free_other:
  "k' \<noteq> k \<Longrightarrow> free s k' \<Longrightarrow> free (snd (updateLinkLoad k n s)) k'"
  using hop_config [of s k n] hop_load_other [of k' k n s]
  by (simp add: free_def same_config_def split: option.splits)

lemma hop_load_le:
  assumes "within_capacity s"
  shows "or0 (linkLoads (snd (updateLinkLoad k 1 s))) k' \<le> or0 (linkLoads s) k' + 1"
proof (cases "k' = k")
  case False
  then show ?thesis by (simp add: hop_load_other)
next
  case True
  show ?thesis
  proof (cases "find_link (links s) k")
    case None
    then show ?thesis by (simp add: updateLinkLoad_def)
  next
    case (Some l)
    with assms have "or0 (linkLoads s) k \<le> capacity l" by (simp add: within_capacity_def)
    with Some True show ?thesis
      by (simp add: updateLinkLoad_def Let_def or0_update)
  qed
qed

paragraph \<open>One packet\<close>

lemma within_capacity_cong:
  "links s' = links s \<Longrightarrow> linkLoads s' = linkLoads s \<Longrightarrow> queues s' = queues s \<Longrightarrow>
   within_capacity s' = within_capacity s"
  by (simp add: within_capacity_def)

lemma transmit_acc:
  "within_capacity (snd (snd acc)) \<Longrightarrow>
     within_capacity (snd (snd (transmit path acc))) \<and>
     same_config (snd (snd acc)) (snd (snd (transmit path acc))) \<and>
     totalPacketsTransmitted (snd (snd (transmit path acc))) = totalPacketsTransmitted (snd (snd acc)) \<and>
     nodeStats (snd (snd (transmit path acc))) = nodeStats (snd (snd acc)) \<and>
     packetStats (snd (snd (transmit path acc))) = packetStats (snd (snd acc)) \<and>
     (\<forall>k. or0 (linkLoads (snd (snd (transmit path acc)))) k
            \<le> or0 (linkLoads (snd (snd acc))) k + int (count_list (hop_keys path) k)) \<and>
     backlog (snd (snd acc)) \<le> backlog (snd (snd (transmit path acc))) \<and>
     (fst (snd (transmit path acc)) \<longrightarrow>
        fst (snd acc) \<and> backlog (snd (snd (transmit path acc))) = backlog (snd (snd acc)))"
proof (induction path acc rule: transmit.induct)
  case (1 a b rest route ok s)
  let ?k = "linkKey a b"
  let ?t = "fst (updateLinkLoad ?k 1 s)"
  let ?s1 = "snd (updateLinkLoad ?k 1 s)"
  let ?acc1 = "(route @ [\<lparr>hop_from = a, hop_to = b, hop_transmitted = ?t, hop_linkKey = ?k\<rparr>], ok \<and> ?t, ?s1)"
  from "1.prems" have w: "within_capacity s" by simp
  have tr: "transmit (a # b # rest) (route, ok, s) = transmit (b # rest) ?acc1"
    by (simp add: Let_def case_prod_beta)
  have w1: "within_capacity ?s1" by (rule hop_within [OF w])
  have ih: "within_capacity (snd (snd (transmit (b # rest) ?acc1))) \<and>
     same_config ?s1 (snd (snd (transmit (b # rest) ?acc1))) \<and>
     totalPacketsTransmitted (snd (snd (transmit (b # rest) ?acc1))) = totalPacketsTransmitted ?s1 \<and>
     nodeStats (snd (snd (transmit (b # rest) ?acc1))) = nodeStats ?s1 \<and>
     packetStats (snd (snd (transmit (b # rest) ?acc1))) = packetStats ?s1 \<and>
     (\<forall>k. or0 (linkLoads (snd (snd (transmit (b # rest) ?acc1)))) k
            \<le> or0 (linkLoads ?s1) k + int (count_list (hop_keys (b # rest)) k)) \<and>
     backlog ?s1 \<le> backlog (snd (snd (transmit (b # rest) ?acc1))) \<and>
     (fst (snd (transmit (b # rest) ?acc1)) \<longrightarrow>
        (ok \<and> ?t) \<and> backlog (snd (snd (transmit (b # rest) ?acc1))) = backlog ?s1)"
  proof -
    have pre: "within_capacity (snd (snd ?acc1))" using w1 by simp
    from "1.IH" [OF refl refl prod.collapse pre] show ?thesis
      unfolding snd_conv fst_conv .
  qed
  define s2 where "s2 = snd (snd (transmit (b # rest) ?acc1))"
  define ok2 where "ok2 = fst (snd (transmit (b # rest) ?acc1))"
  from ih have i1: "within_capacity s2" and i2: "same_config ?s1 s2"
    and i3: "totalPacketsTransmitted s2 = totalPacketsTransmitted ?s1"
    and i4: "nodeStats s2 = nodeStats ?s1" and i5: "packetStats s2 = packetStats ?s1"
    and i6: "\<And>k. or0 (linkLoads s2) k \<le> or0 (linkLoads ?s1) k + int (count_list (hop_keys (b # rest)) k)"
    and i7: "backlog ?s1 \<le> backlog s2"
    and i8: "ok2 \<Longrightarrow> (ok \<and> ?t) \<and> backlog s2 = backlog ?s1"
    unfolding s2_def ok2_def by blast+
  note hb = hop_backlog [OF w, of ?k]
  note hf = hop_frame [of ?k 1 s]
  have ld: "or0 (linkLoads s2) k \<le> or0 (linkLoads s) k + int (count_list (hop_keys (a # b # rest)) k)" for k
  proof (cases "k = ?k")
    case True
    with i6 [of k] hop_load_le [OF w, of ?k k] show ?thesis by simp
  next
    case False
    with i6 [of k] hop_load_other [of k ?k 1 s] show ?thesis by simp
  qed
  have sc: "same_config s s2"
    using i2 hop_config [of s ?k 1] by (rule same_config_trans [rotated])
  have bl: "backlog s \<le> backlog s2" using hb i7 by simp
  have okc: "ok2 \<longrightarrow> ok \<and> backlog s2 = backlog s" using hb i8 by auto
  have "within_capacity s2 \<and> same_config s s2 \<and>
     totalPacketsTransmitted s2 = totalPacketsTransmitted s \<and>
     nodeStats s2 = nodeStats s \<and> packetStats s2 = packetStats s \<and>
     (\<forall>k. or0 (linkLoads s2) k \<le> or0 (linkLoads s) k + int (count_list (hop_keys (a # b # rest)) k)) \<and>
     backlog s \<le> backlog s2 \<and> (ok2 \<longrightarrow> ok \<and> backlog s2 = backlog s)"
    using i1 sc i3 i4 i5 hf ld bl okc by simp
  then show ?case
    unfolding tr s2_def ok2_def snd_conv fst_conv .
next
  case (2 a acc)
  then show ?case by (simp add: same_config_refl)
next
  case (3 acc)
  then show ?case by (simp add: same_config_refl)
qed

lemma transmit_spec:
  assumes "within_capacity s" and "transmit path (r, ok, s) = (r', ok', s')"
  shows "within_capacity s' \<and> same_config s s' \<and>
     totalPacketsTransmitted s' = totalPacketsTransmitted s \<and>
     nodeStats s' = nodeStats s \<and> packetStats s' = packetStats s \<and>
     (\<forall>k. or0 (linkLoads s') k \<le> or0 (linkLoads s) k + int (count_list (hop_keys path) k)) \<and>
     backlog s \<le> backlog s' \<and> (ok' \<longrightarrow> ok \<and> backlog s' = backlog s)"
  using transmit_acc [of "(r, ok, s)" path] assms by simp

lemma transmit_light:
  assumes "within_capacity s" and "light s path" and "transmit path ([], True, s) = (r', ok', s')"
  shows "backlog s' \<le> backlog s + 1"
proof (cases "(s, path)" rule: light.cases)
  case (1 s0 a b c)
  let ?k1 = "linkKey a b" and ?k2 = "linkKey b c"
  let ?s1 = "snd (updateLinkLoad ?k1 1 s)"
  from 1 assms(3) have s': "s' = snd (updateLinkLoad ?k2 1 ?s1)"
    by (simp add: Let_def case_prod_beta)
  have w1: "within_capacity ?s1" by (rule hop_within [OF assms(1)])
  note h1 = hop_backlog [OF assms(1), of ?k1]
  note h2 = hop_backlog [OF w1, of ?k2]
  from 1 assms(2) consider "free s ?k1" | "free s ?k2" "?k1 \<noteq> ?k2" by auto
  then show ?thesis
  proof cases
    case 1
    with h1 h2 s' show ?thesis by simp
  next
    case 2
    then have "free ?s1 ?k2" using hop_free_other [of ?k2 ?k1 s 1] by simp
    with h1 h2 s' show ?thesis by simp
  qed
next
  case (2 s0 a b c d rest)
  with assms(2) show ?thesis by simp
next
  case (3 s0 a b)
  with assms(3) have "s' = snd (updateLinkLoad (linkKey a b) 1 s)"
    by (simp add: Let_def case_prod_beta)
  with hop_backlog [OF assms(1), of "linkKey a b"] show ?thesis by simp
next
  case (4 s0 a)
  with assms(3) show ?thesis by simp
next
  case (5 s0)
  with assms(3) show ?thesis by simp
qed

lemma keys_update_present:
  "map_of al k = Some v \<Longrightarrow> fst ` set (AList.update k v' al) = fst ` set al"
  by (induction al) (auto split: if_splits)

lemma send_packet_spec:
  assumes w: "within_capacity s" and l: "light s path"
    and d: "destination \<in> fst ` set (nodeStats s)"
  shows "\<exists>s'. send_packet source destination i path s = Inr s' \<and> packet_post path s s'"
proof (cases "length path < 2")
  case True
  then show ?thesis
    by (simp add: send_packet_def packet_post_def w same_config_refl)
next
  case False
  obtain r' ok' s1 where t: "transmit path ([], True, s) = (r', ok', s1)"
    by (cases "transmit path ([], True, s)") auto
  note sp = transmit_spec [OF w t]
  note tl = transmit_light [OF w l t]
  define pk where "pk = \<lparr>pkt_id = source @ ''-'' @ destination @ ''-'' @ string_of_nat i,
                          pkt_source = source, pkt_destination = destination,
                          pkt_path = path, pkt_route = r',
                          pkt_transmitted = ok',
                          pkt_timestamp = simulationStep s1\<rparr>"
  define s2 where "s2 = s1\<lparr>packetStats := packetStats s1 @ [pk]\<rparr>"
  have w2: "within_capacity s2"
    using sp by (simp add: s2_def within_capacity_def)
  have c2: "same_config s s2" using sp by (simp add: s2_def same_config_def)
  have b2: "backlog s2 = backlog s1" by (simp add: s2_def backlog_def)
  have n2: "nodeStats s2 = nodeStats s" using sp by (simp add: s2_def)
  have l2: "linkLoads s2 = linkLoads s1" by (simp add: s2_def)
  have p2: "length (packetStats s2) = length (packetStats s) + 1" using sp by (simp add: s2_def)
  have t2: "totalPacketsTransmitted s2 = totalPacketsTransmitted s" using sp by (simp add: s2_def)
  show ?thesis
  proof (cases ok')
    case False
    have "send_packet source destination i path s = Inr s2"
      using \<open>\<not> length path < 2\<close> False t
      by (simp add: send_packet_def Let_def s2_def pk_def)
    moreover have "packet_post path s s2"
      using w2 c2 b2 n2 l2 p2 t2 tl sp \<open>\<not> length path < 2\<close>
      by (simp add: packet_post_def credit_def)
    ultimately show ?thesis by blast
  next
    case True
    from d n2 have "map_of (nodeStats s2) destination \<noteq> None"
      by (simp add: map_of_eq_None_iff)
    then obtain st where st: "map_of (nodeStats s2) destination = Some st" by blast
    define s3 where "s3 = s2\<lparr>nodeStats :=
                                  AList.update destination
                                    (st\<lparr>packetsReceived := packetsReceived st + 1\<rparr>) (nodeStats s2),
                                totalPacketsTransmitted := totalPacketsTransmitted s2 + 1\<rparr>"
    from st have st1: "map_of (nodeStats s1) destination = Some st" by (simp add: s2_def)
    have "send_packet source destination i path s = Inr s3"
      using \<open>\<not> length path < 2\<close> True t st1
      by (simp add: send_packet_def Let_def s2_def pk_def s3_def)
    moreover have "within_capacity s3"
      using w2 by (simp add: s3_def within_capacity_def)
    moreover have "same_config s s3" using c2 by (simp add: s3_def same_config_def)
    moreover have "credit s3 \<le> credit s + 1"
      using True sp b2 t2 by (simp add: s3_def credit_def backlog_def)
    moreover have "fst ` set (nodeStats s3) = fst ` set (nodeStats s)"
      using keys_update_present [OF st] n2 by (simp add: s3_def)
    moreover have "\<forall>k. or0 (linkLoads s3) k \<le> or0 (linkLoads s) k + int (count_list (hop_keys path) k)"
      using sp l2 by (simp add: s3_def)
    moreover have "length (packetStats s3) = length (packetStats s) + 1"
      using p2 by (simp add: s3_def)
    ultimately show ?thesis
      using \<open>\<not> length path < 2\<close> by (simp add: packet_post_def)
  qed
qed

paragraph \<open>The routes of the default topology\<close>

lemma default_routes:
  "dijkstra nodes default_links ''A'' ''B'' = Inr [''A'', ''B'']"
  "dijkstra nodes default_links ''A'' ''C'' = Inr [''A'', ''C'']"
  "dijkstra nodes default_links ''A'' ''D'' = Inr [''A'', ''B'', ''D'']"
  "dijkstra nodes default_links ''A'' ''E'' = Inr [''A'', ''C'', ''E'']"
  "dijkstra nodes default_links ''B'' ''A'' = Inr [''B'', ''A'']"
  "dijkstra nodes default_links ''B'' ''C'' = Inr [''B'', ''A'', ''C'']"
  "dijkstra nodes default_links ''B'' ''D'' = Inr [''B'', ''D'']"
  "dijkstra nodes default_links ''B'' ''E'' = Inr [''B'', ''D'', ''E'']"
  "dijkstra nodes default_links ''C'' ''A'' = Inr [''C'', ''A'']"
  "dijkstra nodes default_links ''C'' ''B'' = Inr [''C'', ''A'', ''B'']"
  "dijkstra nodes default_links ''C'' ''D'' = Inr [''C'', ''D'']"
  "dijkstra nodes default_links ''C'' ''E'' = Inr [''C'', ''E'']"
  "dijkstra nodes default_links ''D'' ''A'' = Inr [''D'', ''B'', ''A'']"
  "dijkstra nodes default_links ''D'' ''B'' = Inr [''D'', ''B'']"
  "dijkstra nodes default_links ''D'' ''C'' = Inr [''D'', ''C'']"
  "dijkstra nodes default_links ''D'' ''E'' = Inr [''D'', ''E'']"
  "dijkstra nodes default_links ''E'' ''A'' = Inr [''E'', ''C'', ''A'']"
  "dijkstra nodes default_links ''E'' ''B'' = Inr [''E'', ''D'', ''B'']"
  "dijkstra nodes default_links ''E'' ''C'' = Inr [''E'', ''C'']"
  "dijkstra nodes default_links ''E'' ''D'' = Inr [''E'', ''D'']"
  by code_simp+

lemma progress_0: "ready s \<Longrightarrow> progress 0 s s"
  by (simp add: progress_def same_config_refl)

lemma progress_trans: "progress m a b \<Longrightarrow> progress n b c \<Longrightarrow> progress (m + n) a c"
  by (auto simp: progress_def intro: same_config_trans)

lemma packet_step_route:
  assumes "ready s" and "getRandomDestination source (rnd source i) = Some d"
    and "d \<in> set nodes" and "dijkstra nodes default_links source d = Inr path"
    and "light s path" and "2 \<le> length path"
  shows "\<exists>s'. packet_step rnd source i s = Inr s' \<and> progress 1 s s' \<and>
           (\<forall>k. or0 (linkLoads s') k \<le> or0 (linkLoads s) k + int (count_list (hop_keys path) k))"
proof -
  from assms(1,3) have w: "within_capacity s" and l: "links s = default_links"
    and d: "d \<in> fst ` set (nodeStats s)"
    by (auto simp: ready_def)
  from send_packet_spec [OF w assms(5) d, of source i]
  obtain s' where s': "send_packet source d i path s = Inr s'" "packet_post path s s'" by blast
  from s'(1) assms(2,4) l have "packet_step rnd source i s = Inr s'"
    by (simp add: packet_step_def)
  moreover from s'(2) assms(1,6) have "progress 1 s s'"
    by (simp add: packet_post_def progress_def ready_def same_config_def)
  ultimately show ?thesis using s'(2) by (auto simp: packet_post_def)
qed

lemma default_link_keys:
  "find_link default_links ''A-B'' = Some \<lparr>link_from = ''A'', link_to = ''B'', capacity = 100\<rparr>"
  "find_link default_links ''A-C'' = Some \<lparr>link_from = ''A'', link_to = ''C'', capacity = 80\<rparr>"
  "find_link default_links ''D-E'' = Some \<lparr>link_from = ''D'', link_to = ''E'', capacity = 60\<rparr>"
  "find_link default_links ''B-A'' = None"
  "find_link default_links ''C-A'' = None"
  "find_link default_links ''D-B'' = None"
  "find_link default_links ''E-C'' = None"
  "find_link default_links ''E-D'' = None"
  by (simp_all add: find_link_def default_links_def linkKey_def)

lemma other_nodes:
  "d \<in> set nodes \<Longrightarrow> d \<noteq> ''A'' \<Longrightarrow> d = ''B'' \<or> d = ''C'' \<or> d = ''D'' \<or> d = ''E''"
  "d \<in> set nodes \<Longrightarrow> d \<noteq> ''B'' \<Longrightarrow> d = ''A'' \<or> d = ''C'' \<or> d = ''D'' \<or> d = ''E''"
  "d \<in> set nodes \<Longrightarrow> d \<noteq> ''C'' \<Longrightarrow> d = ''A'' \<or> d = ''B'' \<or> d = ''D'' \<or> d = ''E''"
  "d \<in> set nodes \<Longrightarrow> d \<noteq> ''D'' \<Longrightarrow> d = ''A'' \<or> d = ''B'' \<or> d = ''C'' \<or> d = ''E''"
  "d \<in> set nodes \<Longrightarrow> d \<noteq> ''E'' \<Longrightarrow> d = ''A'' \<or> d = ''B'' \<or> d = ''C'' \<or> d = ''D''"
  by (auto simp: nodes_def)

lemma packet_step_via:
  assumes "ready s" and "getRandomDestination source (rnd source i) = Some d"
    and "d \<in> set nodes" and "dijkstra nodes default_links source d = Inr path"
    and "light s path" and "2 \<le> length path"
    and "\<And>s'. (\<And>k. or0 (linkLoads s') k \<le> or0 (linkLoads s) k + int (count_list (hop_keys path) k))
            \<Longrightarrow> Q s'"
  shows "\<exists>s'. packet_step rnd source i s = Inr s' \<and> progress 1 s s' \<and> Q s'"
proof -
  from packet_step_route [where rnd = rnd, OF assms(1-6)]
  obtain s' where "packet_step rnd source i s = Inr s'" "progress 1 s s'"
    "\<And>k. or0 (linkLoads s') k \<le> or0 (linkLoads s) k + int (count_list (hop_keys path) k)"
    by blast
  with assms(7) [of s'] show ?thesis by blast
qed

lemma packet_step_A:
  assumes r: "ready s" and ab: "or0 (linkLoads s) ''A-B'' < 100" and ac: "or0 (linkLoads s) ''A-C'' < 80"
  shows "\<exists>s'. packet_step rnd ''A'' i s = Inr s' \<and> progress 1 s s' \<and>
           (or0 (linkLoads s') ''A-B'' \<le> or0 (linkLoads s) ''A-B'' + 1 \<and>
            or0 (linkLoads s') ''A-C'' \<le> or0 (linkLoads s) ''A-C'' + 1 \<and>
            or0 (linkLoads s') ''D-E'' \<le> or0 (linkLoads s) ''D-E'')"
proof -
  from getRandomDestination_other [of "''A''" "rnd ''A'' i"]
  obtain d where d: "getRandomDestination ''A'' (rnd ''A'' i) = Some d" "d \<noteq> ''A''" "d \<in> set nodes"
    by blast
  from r have l: "links s = default_links" by (simp add: ready_def)
  have fab: "free s ''A-B''" and fac: "free s ''A-C''"
    using ab ac by (simp_all add: free_def l default_link_keys)
  from other_nodes(1) [OF d(3,2)] consider "d = ''B''" | "d = ''C''" | "d = ''D''" | "d = ''E''"
    by blast
  then show ?thesis
  proof cases
    case 1
    show ?thesis
    proof (rule packet_step_via [where rnd = rnd and source = "''A''" and i = i and path = "[''A'', ''B'']", OF r d(1) d(3)])
      show "dijkstra nodes default_links ''A'' d = Inr [''A'', ''B'']"
        using 1 by (simp add: default_routes)
      fix s' assume "\<And>k. or0 (linkLoads s') k \<le> or0 (linkLoads s) k + int (count_list (hop_keys [''A'', ''B'']) k)"
      from this [of "''A-B''"] this [of "''A-C''"] this [of "''D-E''"]
      show "or0 (linkLoads s') ''A-B'' \<le> or0 (linkLoads s) ''A-B'' + 1 \<and>
            or0 (linkLoads s') ''A-C'' \<le> or0 (linkLoads s) ''A-C'' + 1 \<and>
            or0 (linkLoads s') ''D-E'' \<le> or0 (linkLoads s) ''D-E''"
        by (simp add: linkKey_def)
    qed simp_all
  next
    case 2
    show ?thesis
    proof (rule packet_step_via [where rnd = rnd and source = "''A''" and i = i and path = "[''A'', ''C'']", OF r d(1) d(3)])
      show "dijkstra nodes default_links ''A'' d = Inr [''A'', ''C'']"
        using 2 by (simp add: default_routes)
      fix s' assume "\<And>k. or0 (linkLoads s') k \<le> or0 (linkLoads s) k + int (count_list (hop_keys [''A'', ''C'']) k)"
      from this [of "''A-B''"] this [of "''A-C''"] this [of "''D-E''"]
      show "or0 (linkLoads s') ''A-B'' \<le> or0 (linkLoads s) ''A-B'' + 1 \<and>
            or0 (linkLoads s') ''A-C'' \<le> or0 (linkLoads s) ''A-C'' + 1 \<and>
            or0 (linkLoads s') ''D-E'' \<le> or0 (linkLoads s) ''D-E''"
        by (simp add: linkKey_def)
    qed simp_all
  next
    case 3
    show ?thesis
    proof (rule packet_step_via [where rnd = rnd and source = "''A''" and i = i and path = "[''A'', ''B'', ''D'']", OF r d(1) d(3)])
      show "dijkstra nodes default_links ''A'' d = Inr [''A'', ''B'', ''D'']"
        using 3 by (simp add: default_routes)
      show "light s [''A'', ''B'', ''D'']" using fab by (simp add: linkKey_def)
      fix s' assume "\<And>k. or0 (linkLoads s') k \<le> or0 (linkLoads s) k + int (count_list (hop_keys [''A'', ''B'', ''D'']) k)"
      from this [of "''A-B''"] this [of "''A-C''"] this [of "''D-E''"]
      show "or0 (linkLoads s') ''A-B'' \<le> or0 (linkLoads s) ''A-B'' + 1 \<and>
            or0 (linkLoads s') ''A-C'' \<le> or0 (linkLoads s) ''A-C'' + 1 \<and>
            or0 (linkLoads s') ''D-E'' \<le> or0 (linkLoads s) ''D-E''"
        by (simp add: linkKey_def)
    qed simp_all
  next
    case 4
    show ?thesis
    proof (rule packet_step_via [where rnd = rnd and source = "''A''" and i = i and path = "[''A'', ''C'', ''E'']", OF r d(1) d(3)])
      show "dijkstra nodes default_links ''A'' d = Inr [''A'', ''C'', ''E'']"
        using 4 by (simp add: default_routes)
      show "light s [''A'', ''C'', ''E'']" using fac by (simp add: linkKey_def)
      fix s' assume "\<And>k. or0 (linkLoads s') k \<le> or0 (linkLoads s) k + int (count_list (hop_keys [''A'', ''C'', ''E'']) k)"
      from this [of "''A-B''"] this [of "''A-C''"] this [of "''D-E''"]
      show "or0 (linkLoads s') ''A-B'' \<le> or0 (linkLoads s) ''A-B'' + 1 \<and>
            or0 (linkLoads s') ''A-C'' \<le> or0 (linkLoads s) ''A-C'' + 1 \<and>
            or0 (linkLoads s') ''D-E'' \<le> or0 (linkLoads s) ''D-E''"
        by (simp add: linkKey_def)
    qed simp_all
  qed
qed

lemma packet_step_plain:
  assumes "ready s" and "getRandomDestination source (rnd source i) = Some d"
    and "d \<in> set nodes" and "dijkstra nodes default_links source d = Inr path"
    and "light s path" and "2 \<le> length path"
  shows "\<exists>s'. packet_step rnd source i s = Inr s' \<and> progress 1 s s'"
  using packet_step_route [where rnd = rnd, OF assms] by blast

lemma packet_step_B:
  assumes r: "ready s" and de: "or0 (linkLoads s) ''D-E'' < 60"
  shows "\<exists>s'. packet_step rnd ''B'' i s = Inr s' \<and> progress 1 s s' \<and>
           or0 (linkLoads s') ''D-E'' \<le> or0 (linkLoads s) ''D-E'' + 1"
proof -
  from getRandomDestination_other [of "''B''" "rnd ''B'' i"]
  obtain d where d: "getRandomDestination ''B'' (rnd ''B'' i) = Some d" "d \<noteq> ''B''" "d \<in> set nodes"
    by blast
  from r have l: "links s = default_links" by (simp add: ready_def)
  have fde: "free s ''D-E''" and fba: "free s ''B-A''"
    using de by (simp_all add: free_def l default_link_keys)
  from other_nodes(2) [OF d(3,2)] consider "d = ''A''" | "d = ''C''" | "d = ''D''" | "d = ''E''"
    by blast
  then show ?thesis
  proof cases
    case 1
    show ?thesis
    proof (rule packet_step_via [where rnd = rnd and source = "''B''" and i = i and path = "[''B'', ''A'']", OF r d(1) d(3)])
      show "dijkstra nodes default_links ''B'' d = Inr [''B'', ''A'']"
        using 1 by (simp add: default_routes)
      fix s' assume "\<And>k. or0 (linkLoads s') k \<le> or0 (linkLoads s) k + int (count_list (hop_keys [''B'', ''A'']) k)"
      from this [of "''D-E''"]
      show "or0 (linkLoads s') ''D-E'' \<le> or0 (linkLoads s) ''D-E'' + 1"
        by (simp add: linkKey_def)
    qed simp_all
  next
    case 2
    show ?thesis
    proof (rule packet_step_via [where rnd = rnd and source = "''B''" and i = i and path = "[''B'', ''A'', ''C'']", OF r d(1) d(3)])
      show "dijkstra nodes default_links ''B'' d = Inr [''B'', ''A'', ''C'']"
        using 2 by (simp add: default_routes)
      show "light s [''B'', ''A'', ''C'']" using fba by (simp add: linkKey_def)
      fix s' assume "\<And>k. or0 (linkLoads s') k \<le> or0 (linkLoads s) k + int (count_list (hop_keys [''B'', ''A'', ''C'']) k)"
      from this [of "''D-E''"]
      show "or0 (linkLoads s') ''D-E'' \<le> or0 (linkLoads s) ''D-E'' + 1"
        by (simp add: linkKey_def)
    qed simp_all
  next
    case 3
    show ?thesis
    proof (rule packet_step_via [where rnd = rnd and source = "''B''" and i = i and path = "[''B'', ''D'']", OF r d(1) d(3)])
      show "dijkstra nodes default_links ''B'' d = Inr [''B'', ''D'']"
        using 3 by (simp add: default_routes)
      fix s' assume "\<And>k. or0 (linkLoads s') k \<le> or0 (linkLoads s) k + int (count_list (hop_keys [''B'', ''D'']) k)"
      from this [of "''D-E''"]
      show "or0 (linkLoads s') ''D-E'' \<le> or0 (linkLoads s) ''D-E'' + 1"
        by (simp add: linkKey_def)
    qed simp_all
  next
    case 4
    show ?thesis
    proof (rule packet_step_via [where rnd = rnd and source = "''B''" and i = i and path = "[''B'', ''D'', ''E'']", OF r d(1) d(3)])
      show "dijkstra nodes default_links ''B'' d = Inr [''B'', ''D'', ''E'']"
        using 4 by (simp add: default_routes)
      show "light s [''B'', ''D'', ''E'']" using fde by (simp add: linkKey_def)
      fix s' assume "\<And>k. or0 (linkLoads s') k \<le> or0 (linkLoads s) k + int (count_list (hop_keys [''B'', ''D'', ''E'']) k)"
      from this [of "''D-E''"]
      show "or0 (linkLoads s') ''D-E'' \<le> or0 (linkLoads s) ''D-E'' + 1"
        by (simp add: linkKey_def)
    qed simp_all
  qed
qed

lemma packet_step_C:
  assumes r: "ready s"
  shows "\<exists>s'. packet_step rnd ''C'' i s = Inr s' \<and> progress 1 s s'"
proof -
  from getRandomDestination_other [of "''C''" "rnd ''C'' i"]
  obtain d where d: "getRandomDestination ''C'' (rnd ''C'' i) = Some d" "d \<noteq> ''C''" "d \<in> set nodes"
    by blast
  from r have l: "links s = default_links" by (simp add: ready_def)
  from other_nodes(3) [OF d(3,2)] consider "d = ''A''" | "d = ''B''" | "d = ''D''" | "d = ''E''"
    by blast
  then show ?thesis
  proof cases
    case 1
    show ?thesis
    proof (rule packet_step_plain [where rnd = rnd and source = "''C''" and i = i and path = "[''C'', ''A'']", OF r d(1) d(3)])
      show "dijkstra nodes default_links ''C'' d = Inr [''C'', ''A'']"
        using 1 by (simp add: default_routes)
      show "light s [''C'', ''A'']" by (simp add: linkKey_def free_def l default_link_keys)
    qed simp
  next
    case 2
    show ?thesis
    proof (rule packet_step_plain [where rnd = rnd and source = "''C''" and i = i and path = "[''C'', ''A'', ''B'']", OF r d(1) d(3)])
      show "dijkstra nodes default_links ''C'' d = Inr [''C'', ''A'', ''B'']"
        using 2 by (simp add: default_routes)
      show "light s [''C'', ''A'', ''B'']" by (simp add: linkKey_def free_def l default_link_keys)
    qed simp
  next
    case 3
    show ?thesis
    proof (rule packet_step_plain [where rnd = rnd and source = "''C''" and i = i and path = "[''C'', ''D'']", OF r d(1) d(3)])
      show "dijkstra nodes default_links ''C'' d = Inr [''C'', ''D'']"
        using 3 by (simp add: default_routes)
      show "light s [''C'', ''D'']" by (simp add: linkKey_def free_def l default_link_keys)
    qed simp
  next
    case 4
    show ?thesis
    proof (rule packet_step_plain [where rnd = rnd and source = "''C''" and i = i and path = "[''C'', ''E'']", OF r d(1) d(3)])
      show "dijkstra nodes default_links ''C'' d = Inr [''C'', ''E'']"
        using 4 by (simp add: default_routes)
      show "light s [''C'', ''E'']" by (simp add: linkKey_def free_def l default_link_keys)
    qed simp
  qed
qed

lemma packet_step_D:
  assumes r: "ready s"
  shows "\<exists>s'. packet_step rnd ''D'' i s = Inr s' \<and> progress 1 s s'"
proof -
  from getRandomDestination_other [of "''D''" "rnd ''D'' i"]
  obtain d where d: "getRandomDestination ''D'' (rnd ''D'' i) = Some d" "d \<noteq> ''D''" "d \<in> set nodes"
    by blast
  from r have l: "links s = default_links" by (simp add: ready_def)
  from other_nodes(4) [OF d(3,2)] consider "d = ''A''" | "d = ''B''" | "d = ''C''" | "d = ''E''"
    by blast
  then show ?thesis
  proof cases
    case 1
    show ?thesis
    proof (rule packet_step_plain [where rnd = rnd and source = "''D''" and i = i and path = "[''D'', ''B'', ''A'']", OF r d(1) d(3)])
      show "dijkstra nodes default_links ''D'' d = Inr [''D'', ''B'', ''A'']"
        using 1 by (simp add: default_routes)
      show "light s [''D'', ''B'', ''A'']" by (simp add: linkKey_def free_def l default_link_keys)
    qed simp
  next
    case 2
    show ?thesis
    proof (rule packet_step_plain [where rnd = rnd and source = "''D''" and i = i and path = "[''D'', ''B'']", OF r d(1) d(3)])
      show "dijkstra nodes default_links ''D'' d = Inr [''D'', ''B'']"
        using 2 by (simp add: default_routes)
      show "light s [''D'', ''B'']" by (simp add: linkKey_def free_def l default_link_keys)
    qed simp
  next
    case 3
    show ?thesis
    proof (rule packet_step_plain [where rnd = rnd and source = "''D''" and i = i and path = "[''D'', ''C'']", OF r d(1) d(3)])
      show "dijkstra nodes default_links ''D'' d = Inr [''D'', ''C'']"
        using 3 by (simp add: default_routes)
      show "light s [''D'', ''C'']" by (simp add: linkKey_def free_def l default_link_keys)
    qed simp
  next
    case 4
    show ?thesis
    proof (rule packet_step_plain [where rnd = rnd and source = "''D''" and i = i and path = "[''D'', ''E'']", OF r d(1) d(3)])
      show "dijkstra nodes default_links ''D'' d = Inr [''D'', ''E'']"
        using 4 by (simp add: default_routes)
      show "light s [''D'', ''E'']" by (simp add: linkKey_def free_def l default_link_keys)
    qed simp
  qed
qed

lemma packet_step_E:
  assumes r: "ready s"
  shows "\<exists>s'. packet_step rnd ''E'' i s = Inr s' \<and> progress 1 s s'"
proof -
  from getRandomDestination_other [of "''E''" "rnd ''E'' i"]
  obtain d where d: "getRandomDestination ''E'' (rnd ''E'' i) = Some d" "d \<noteq> ''E''" "d \<in> set nodes"
    by blast
  from r have l: "links s = default_links" by (simp add: ready_def)
  from other_nodes(5) [OF d(3,2)] consider "d = ''A''" | "d = ''B''" | "d = ''C''" | "d = ''D''"
    by blast
  then show ?thesis
  proof cases
    case 1
    show ?thesis
    proof (rule packet_step_plain [where rnd = rnd and source = "''E''" and i = i and path = "[''E'', ''C'', ''A'']", OF r d(1) d(3)])
      show "dijkstra nodes default_links ''E'' d = Inr [''E'', ''C'', ''A'']"
        using 1 by (simp add: default_routes)
      show "light s [''E'', ''C'', ''A'']" by (simp add: linkKey_def free_def l default_link_keys)
    qed simp
  next
    case 2
    show ?thesis
    proof (rule packet_step_plain [where rnd = rnd and source = "''E''" and i = i and path = "[''E'', ''D'', ''B'']", OF r d(1) d(3)])
      show "dijkstra nodes default_links ''E'' d = Inr [''E'', ''D'', ''B'']"
        using 2 by (simp add: default_routes)
      show "light s [''E'', ''D'', ''B'']" by (simp add: linkKey_def free_def l default_link_keys)
    qed simp
  next
    case 3
    show ?thesis
    proof (rule packet_step_plain [where rnd = rnd and source = "''E''" and i = i and path = "[''E'', ''C'']", OF r d(1) d(3)])
      show "dijkstra nodes default_links ''E'' d = Inr [''E'', ''C'']"
        using 3 by (simp add: default_routes)
      show "light s [''E'', ''C'']" by (simp add: linkKey_def free_def l default_link_keys)
    qed simp
  next
    case 4
    show ?thesis
    proof (rule packet_step_plain [where rnd = rnd and source = "''E''" and i = i and path = "[''E'', ''D'']", OF r d(1) d(3)])
      show "dijkstra nodes default_links ''E'' d = Inr [''E'', ''D'']"
        using 4 by (simp add: default_routes)
      show "light s [''E'', ''D'']" by (simp add: linkKey_def free_def l default_link_keys)
    qed simp
  qed
qed

paragraph \<open>The loops of one tick\<close>

lemma progress_ready: "progress n s s' \<Longrightarrow> ready s'"
  by (simp add: progress_def)

lemma packet_loop_A:
  "ready s \<Longrightarrow> or0 (linkLoads s) ''A-B'' + int (length js) \<le> 100 \<Longrightarrow>
   or0 (linkLoads s) ''A-C'' + int (length js) \<le> 80 \<Longrightarrow>
   \<exists>s'. packet_loop rnd ''A'' js s = Inr s' \<and> progress (length js) s s' \<and>
        or0 (linkLoads s') ''D-E'' \<le> or0 (linkLoads s) ''D-E''"
proof (induction js arbitrary: s)
  case Nil
  then show ?case by (simp add: progress_0)
next
  case (Cons j js)
  from Cons.prems have "or0 (linkLoads s) ''A-B'' < 100" "or0 (linkLoads s) ''A-C'' < 80" by simp_all
  from packet_step_A [OF Cons.prems(1) this, of rnd j]
  obtain s1 where s1: "packet_step rnd ''A'' j s = Inr s1" "progress 1 s s1"
    "or0 (linkLoads s1) ''A-B'' \<le> or0 (linkLoads s) ''A-B'' + 1"
    "or0 (linkLoads s1) ''A-C'' \<le> or0 (linkLoads s) ''A-C'' + 1"
    "or0 (linkLoads s1) ''D-E'' \<le> or0 (linkLoads s) ''D-E''"
    by blast
  from s1(3,4) Cons.prems have "or0 (linkLoads s1) ''A-B'' + int (length js) \<le> 100"
    "or0 (linkLoads s1) ''A-C'' + int (length js) \<le> 80" by simp_all
  from Cons.IH [OF progress_ready [OF s1(2)] this]
  obtain s' where s': "packet_loop rnd ''A'' js s1 = Inr s'" "progress (length js) s1 s'"
    "or0 (linkLoads s') ''D-E'' \<le> or0 (linkLoads s1) ''D-E''"
    by blast
  from progress_trans [OF s1(2) s'(2)] s1 s' show ?case by simp
qed

lemma packet_loop_B:
  "ready s \<Longrightarrow> or0 (linkLoads s) ''D-E'' + int (length js) \<le> 60 \<Longrightarrow>
   \<exists>s'. packet_loop rnd ''B'' js s = Inr s' \<and> progress (length js) s s'"
proof (induction js arbitrary: s)
  case Nil
  then show ?case by (simp add: progress_0)
next
  case (Cons j js)
  from Cons.prems have "or0 (linkLoads s) ''D-E'' < 60" by simp
  from packet_step_B [OF Cons.prems(1) this, of rnd j]
  obtain s1 where s1: "packet_step rnd ''B'' j s = Inr s1" "progress 1 s s1"
    "or0 (linkLoads s1) ''D-E'' \<le> or0 (linkLoads s) ''D-E'' + 1"
    by blast
  from s1(3) Cons.prems have "or0 (linkLoads s1) ''D-E'' + int (length js) \<le> 60" by simp
  from Cons.IH [OF progress_ready [OF s1(2)] this]
  obtain s' where s': "packet_loop rnd ''B'' js s1 = Inr s'" "progress (length js) s1 s'"
    by blast
  from progress_trans [OF s1(2) s'(2)] s1 s' show ?case by simp
qed

lemma packet_loop_plain:
  assumes step: "\<And>s j. ready s \<Longrightarrow> \<exists>s'. packet_step rnd src j s = Inr s' \<and> progress 1 s s'"
  shows "ready s \<Longrightarrow> \<exists>s'. packet_loop rnd src js s = Inr s' \<and> progress (length js) s s'"
proof (induction js arbitrary: s)
  case Nil
  then show ?case by (simp add: progress_0)
next
  case (Cons j js)
  from step [OF Cons.prems, of j]
  obtain s1 where s1: "packet_step rnd src j s = Inr s1" "progress 1 s s1" by blast
  from Cons.IH [OF progress_ready [OF s1(2)]]
  obtain s' where s': "packet_loop rnd src js s1 = Inr s'" "progress (length js) s1 s'"
    by blast
  from progress_trans [OF s1(2) s'(2)] s1 s' show ?case by simp
qed

lemma source_step_spec:
  assumes r: "ready s" and n: "src \<in> set nodes"
    and loop: "\<And>s1. ready s1 \<Longrightarrow> linkLoads s1 = linkLoads s \<Longrightarrow>
        \<exists>s'. packet_loop rnd src [0..<nat rate] s1 = Inr s' \<and> progress (nat rate) s1 s' \<and> Q s'"
  shows "\<exists>s'. source_step rnd (src, rate) (s, g) = Inr (s', g + rate) \<and>
           progress (nat rate) s s' \<and> Q s'"
proof -
  from r n have "map_of (nodeStats s) src \<noteq> None"
    by (auto simp: ready_def map_of_eq_None_iff)
  then obtain st where st: "map_of (nodeStats s) src = Some st" by blast
  define s1 where "s1 = s\<lparr>nodeStats := AList.update src
        (st\<lparr>packetsGenerated := packetsGenerated st + rate, currentLoad := rate\<rparr>) (nodeStats s)\<rparr>"
  have k: "fst ` set (nodeStats s1) = fst ` set (nodeStats s)"
    using keys_update_present [OF st] by (simp add: s1_def)
  have r1: "ready s1"
    using r k by (simp add: ready_def s1_def within_capacity_def)
  have p1: "progress 0 s s1"
    using r1 by (simp add: progress_def same_config_def credit_def backlog_def s1_def)
  have "linkLoads s1 = linkLoads s" by (simp add: s1_def)
  from loop [OF r1 this]
  obtain s' where s': "packet_loop rnd src [0..<nat rate] s1 = Inr s'" "progress (nat rate) s1 s'" "Q s'"
    by blast
  have "source_step rnd (src, rate) (s, g) = Inr (s', g + rate)"
    using st s'(1) by (simp add: source_step_def Let_def s1_def)
  moreover from progress_trans [OF p1 s'(2)] have "progress (nat rate) s s'" by simp
  ultimately show ?thesis using s'(3) by blast
qed

paragraph \<open>A whole tick\<close>

lemma drain_key_credit: "credit (drain_key k s) = credit s"
proof (cases "map_of (queues s) k")
  case None
  then show ?thesis by (simp add: drain_key_def)
next
  case (Some q)
  then show ?thesis
    by (simp add: drain_key_def credit_def backlog_def Let_def sum_update_some split: option.splits)
qed

lemma drain_key_nonneg:
  assumes "\<forall>x\<in>set (queues s). 0 \<le> snd x"
  shows "\<forall>x\<in>set (queues (drain_key k s)). 0 \<le> snd x"
proof (cases "map_of (queues s) k")
  case None
  with assms show ?thesis by (simp add: drain_key_def)
next
  case (Some q)
  show ?thesis
  proof (cases "0 < q")
    case False
    with Some assms show ?thesis by (simp add: drain_key_def)
  next
    case True
    show ?thesis
    proof (cases "find_link (links s) k")
      case None
      with Some assms show ?thesis by (simp add: drain_key_def)
    next
      case (Some l)
      have "queues (drain_key k s) = AList.update k (q - min q (capacity l)) (queues s)"
        using \<open>map_of (queues s) k = Some q\<close> True Some by (simp add: drain_key_def Let_def)
      moreover have "0 \<le> q - min q (capacity l)" by simp
      ultimately show ?thesis
        using set_update_subset [of k "q - min q (capacity l)" "queues s"] assms by fastforce
    qed
  qed
qed

lemma fold_drain_credit: "credit (fold drain_key ks s) = credit s"
  by (induction ks arbitrary: s) (simp_all add: drain_key_credit)

lemma fold_drain_nonneg:
  "\<forall>x\<in>set (queues s). 0 \<le> snd x \<Longrightarrow> \<forall>x\<in>set (queues (fold drain_key ks s)). 0 \<le> snd x"
proof (induction ks arbitrary: s)
  case Nil
  then show ?case by simp
next
  case (Cons k ks)
  from Cons.IH [OF drain_key_nonneg [OF Cons.prems]] show ?case by simp
qed

lemma default_capacity_pos: "find_link default_links k = Some l \<Longrightarrow> 0 < capacity l"
  by (auto simp: find_link_def default_links_def split: if_splits)

lemma source_loop_default:
  assumes r: "ready s" and z: "linkLoads s = []"
  shows "\<exists>s'. source_loop rnd [(''A'', 50), (''B'', 30), (''C'', 40), (''D'', 20), (''E'', 60)] (s, 0)
              = Inr (s', 200) \<and> progress 200 s s'"
proof -
  have nd: "''A'' \<in> set nodes" "''B'' \<in> set nodes" "''C'' \<in> set nodes" "''D'' \<in> set nodes"
      "''E'' \<in> set nodes"
    by (simp_all add: nodes_def)
  have "\<exists>s'. source_step rnd (''A'', 50) (s, 0) = Inr (s', 0 + 50) \<and> progress (nat 50) s s' \<and>
          or0 (linkLoads s') ''D-E'' \<le> 0"
  proof (rule source_step_spec [OF r nd(1)])
    fix s1 assume "ready s1" and "linkLoads s1 = linkLoads s"
    then show "\<exists>s'. packet_loop rnd ''A'' [0..<nat 50] s1 = Inr s' \<and> progress (nat 50) s1 s' \<and>
            or0 (linkLoads s') ''D-E'' \<le> 0"
      using packet_loop_A [of s1 "[0..<nat 50]" rnd] z by (simp add: or0_def)
  qed
  then obtain sa where sa: "source_step rnd (''A'', 50) (s, 0) = Inr (sa, 50)" "progress 50 s sa"
      "or0 (linkLoads sa) ''D-E'' \<le> 0"
    by auto
  have "\<exists>s'. source_step rnd (''B'', 30) (sa, 50) = Inr (s', 50 + 30) \<and> progress (nat 30) sa s' \<and> True"
  proof (rule source_step_spec [OF progress_ready [OF sa(2)] nd(2)])
    fix s1 assume "ready s1" and "linkLoads s1 = linkLoads sa"
    then show "\<exists>s'. packet_loop rnd ''B'' [0..<nat 30] s1 = Inr s' \<and> progress (nat 30) s1 s' \<and> True"
      using packet_loop_B [of s1 "[0..<nat 30]" rnd] sa(3) by simp
  qed
  then obtain sb where sb: "source_step rnd (''B'', 30) (sa, 50) = Inr (sb, 80)" "progress 30 sa sb"
    by auto
  have "\<exists>s'. source_step rnd (''C'', 40) (sb, 80) = Inr (s', 80 + 40) \<and> progress (nat 40) sb s' \<and> True"
  proof (rule source_step_spec [OF progress_ready [OF sb(2)] nd(3)])
    fix s1 assume "ready s1"
    then show "\<exists>s'. packet_loop rnd ''C'' [0..<nat 40] s1 = Inr s' \<and> progress (nat 40) s1 s' \<and> True"
      using packet_loop_plain [of rnd "''C''" s1 "[0..<nat 40]"] packet_step_C by simp
  qed
  then obtain sc where sc: "source_step rnd (''C'', 40) (sb, 80) = Inr (sc, 120)" "progress 40 sb sc"
    by auto
  have "\<exists>s'. source_step rnd (''D'', 20) (sc, 120) = Inr (s', 120 + 20) \<and> progress (nat 20) sc s' \<and> True"
  proof (rule source_step_spec [OF progress_ready [OF sc(2)] nd(4)])
    fix s1 assume "ready s1"
    then show "\<exists>s'. packet_loop rnd ''D'' [0..<nat 20] s1 = Inr s' \<and> progress (nat 20) s1 s' \<and> True"
      using packet_loop_plain [of rnd "''D''" s1 "[0..<nat 20]"] packet_step_D by simp
  qed
  then obtain sd where sd: "source_step rnd (''D'', 20) (sc, 120) = Inr (sd, 140)" "progress 20 sc sd"
    by auto
  have "\<exists>s'. source_step rnd (''E'', 60) (sd, 140) = Inr (s', 140 + 60) \<and> progress (nat 60) sd s' \<and> True"
  proof (rule source_step_spec [OF progress_ready [OF sd(2)] nd(5)])
    fix s1 assume "ready s1"
    then show "\<exists>s'. packet_loop rnd ''E'' [0..<nat 60] s1 = Inr s' \<and> progress (nat 60) s1 s' \<and> True"
      using packet_loop_plain [of rnd "''E''" s1 "[0..<nat 60]"] packet_step_E by simp
  qed
  then obtain se where se: "source_step rnd (''E'', 60) (sd, 140) = Inr (se, 200)" "progress 60 sd se"
    by auto
  from progress_trans [OF progress_trans [OF progress_trans [OF progress_trans [OF sa(2) sb(2)] sc(2)] sd(2)] se(2)]
  have "progress 200 s se" by simp
  with sa(1) sb(1) sc(1) sd(1) se(1) show ?thesis by simp
qed

lemma tick_preserves_inv:
  assumes i: "tick_inv s"
  shows "\<exists>s'. simulateTick rnd s = Inr s' \<and> tick_inv s' \<and> length (packetStats s') = 200"
proof -
  define s1 where "s1 = s\<lparr>linkLoads := [], packetStats := []\<rparr>"
  define s2 where "s2 = processQueuedPackets s1"
  have rates: "map_of (trafficRates s) (currentTime s)
      = Some [(''A'', 50), (''B'', 30), (''C'', 40), (''D'', 20), (''E'', 60)]"
    using i by (simp add: tick_inv_def default_trafficRates_def)
  have f2: "links s2 = default_links" "trafficRates s2 = trafficRates s" "currentTime s2 = currentTime s"
    "linkLoads s2 = []" "packetStats s2 = []" "nodeStats s2 = nodeStats s"
    "totalPacketsGenerated s2 = totalPacketsGenerated s"
    using i by (simp_all add: s2_def processQueuedPackets_def fold_drain_frame s1_def tick_inv_def)
  have c2: "credit s2 = credit s"
    by (simp add: s2_def processQueuedPackets_def fold_drain_credit)
      (simp add: s1_def credit_def backlog_def)
  have q2: "\<forall>x\<in>set (queues s2). 0 \<le> snd x"
    unfolding s2_def processQueuedPackets_def
    by (rule fold_drain_nonneg) (use i in \<open>simp add: s1_def tick_inv_def\<close>)
  have w2: "within_capacity s2"
    using q2 default_capacity_pos by (fastforce simp: within_capacity_def f2 or0_def)
  have r2: "ready s2" using w2 f2 i by (simp add: ready_def tick_inv_def)
  from source_loop_default [OF r2 f2(4), of rnd]
  obtain s3 where s3: "source_loop rnd [(''A'', 50), (''B'', 30), (''C'', 40), (''D'', 20), (''E'', 60)] (s2, 0)
      = Inr (s3, 200)" "progress 200 s2 s3"
    by blast
  define s4 where "s4 = s3\<lparr>totalPacketsGenerated := totalPacketsGenerated s3 + 200,
                          simulationStep := simulationStep s3 + 1\<rparr>"
  have "simulateTick rnd s = Inr s4"
    using rates s3(1) by (simp add: simulateTick_def Let_def s1_def [symmetric] s2_def [symmetric] s4_def)
  moreover have "tick_inv s4"
    using s3(2) f2 c2 i
    by (simp add: tick_inv_def progress_def ready_def same_config_def within_capacity_def
        credit_def backlog_def s4_def)
  moreover have "length (packetStats s4) = 200"
    using s3(2) f2 by (simp add: progress_def s4_def)
  ultimately show ?thesis by blast
qed

lemma tick_inv_initial: "tick_inv initial_state"
  by (simp add: tick_inv_def initial_state_eq credit_def backlog_def nodes_def)

lemma ticks_preserve_inv: "tick_inv s \<Longrightarrow> \<exists>s'. ticks rnds s = Inr s' \<and> tick_inv s'"
proof (induction rnds arbitrary: s)
  case Nil
  then show ?case by simp
next
  case (Cons rnd rnds)
  from tick_preserves_inv [OF Cons.prems, of rnd]
  obtain s1 where s1: "simulateTick rnd s = Inr s1" "tick_inv s1" by blast
  from Cons.IH [OF s1(2)] s1(1) show ?case by simp
qed

lemma tick_inv_bound: "tick_inv s \<Longrightarrow> totalPacketsTransmitted s \<le> totalPacketsGenerated s"
  using sum_nonneg_entries [of "queues s"] by (simp add: tick_inv_def credit_def backlog_def)

text \<open>
  With the shipped rate table only B-D can overflow, so no packet is queued twice: from the
  initial state every sequence of ticks runs to its end whatever the random draws are, and
  after it the cumulative transmitted counter is at most the cumulative generated counter.
\<close>

lemma default_rates_bound:
  "\<exists>s. ticks rnds initial_state = Inr s \<and>
        totalPacketsTransmitted s \<le> totalPacketsGenerated s"
  using ticks_preserve_inv [OF tick_inv_initial, of rnds] tick_inv_bound by blast

text \<open>
  A packet that overflows two links of its path is queued on both and later drained from
  both. With the capacities of A-B and B-D set to 1 and node A sending two packets a tick to
  D, the third tick ends with 7 packets counted as transmitted and 6 generated.
\<close>

lemma narrow_links_double_count:
  "(case ticks [\<lambda>source i. 2, \<lambda>source i. 2, \<lambda>source i. 2] narrow_example of
      Inr s \<Rightarrow> totalPacketsTransmitted s = 7 \<and> totalPacketsGenerated s = 6
    | Inl e \<Rightarrow> False)"
  by code_simp

text \<open>
  Before \<open>initializeNetwork\<close> has run there are no node statistics, and a tick throws at
  the first source.
\<close>

lemma tick_before_initializeNetwork: "simulateTick rnd module_state = Inl TypeError"
  by (simp add: simulateTick_def module_state_def default_trafficRates_def Let_def
      processQueuedPackets_def source_step_def)

paragraph \<open>Packets queued on two links\<close>

lemma keys_update_in: "k \<in> fst ` set al \<Longrightarrow> map fst (AList.update k v al) = map fst al"
  by (induction al) auto

lemma hop_exact:
  assumes "find_link (links s) k = Some l" and "k \<in> fst ` set (queues s)"
  shows "fst (updateLinkLoad k 1 s) = (or0 (linkLoads s) k < capacity l) \<and>
         or0 (linkLoads (snd (updateLinkLoad k 1 s))) k = min (capacity l) (or0 (linkLoads s) k + 1) \<and>
         or0 (queues (snd (updateLinkLoad k 1 s))) k
           = or0 (queues s) k + max 0 (or0 (linkLoads s) k + 1 - capacity l) \<and>
         map fst (queues (snd (updateLinkLoad k 1 s))) = map fst (queues s) \<and>
         (\<forall>k'. k' \<noteq> k \<longrightarrow> or0 (queues (snd (updateLinkLoad k 1 s))) k' = or0 (queues s) k' \<and>
               or0 (linkLoads (snd (updateLinkLoad k 1 s))) k' = or0 (linkLoads s) k')"
  using assms by (simp add: updateLinkLoad_def Let_def or0_update keys_update_in)

lemma bde_frame_refl: "bde_frame s s"
  by (simp add: bde_frame_def same_config_refl)

lemma bde_frame_trans: "bde_frame a b \<Longrightarrow> bde_frame b c \<Longrightarrow> bde_frame a c"
  by (auto simp: bde_frame_def intro: same_config_trans)

lemma find_link_B_D:
  "find_link default_links ''B-D'' = Some \<lparr>link_from = ''B'', link_to = ''D'', capacity = 70\<rparr>"
  by (simp add: find_link_def default_links_def linkKey_def)

lemma packet_B_to_E:
  assumes l: "links s = default_links" and e: "''E'' \<in> fst ` set (nodeStats s)"
    and kb: "''B-D'' \<in> fst ` set (queues s)" and kd: "''D-E'' \<in> fst ` set (queues s)"
  shows "\<exists>s'. packet_step (\<lambda>source i. 3) ''B'' i s = Inr s' \<and> bde_frame s s' \<and>
           bde_view s' = bde_packet (bde_view s)"
proof -
  define s1 where "s1 = snd (updateLinkLoad ''B-D'' 1 s)"
  define t1 where "t1 = fst (updateLinkLoad ''B-D'' 1 s)"
  define s2 where "s2 = snd (updateLinkLoad ''D-E'' 1 s1)"
  define t2 where "t2 = fst (updateLinkLoad ''D-E'' 1 s1)"
  define route where "route = [\<lparr>hop_from = ''B'', hop_to = ''D'', hop_transmitted = t1, hop_linkKey = ''B-D''\<rparr>,
     \<lparr>hop_from = ''D'', hop_to = ''E'', hop_transmitted = t2, hop_linkKey = ''D-E''\<rparr>]"
  have fb: "find_link (links s) ''B-D'' = Some \<lparr>link_from = ''B'', link_to = ''D'', capacity = 70\<rparr>"
    by (simp add: l find_link_B_D)
  note h1 = hop_exact [OF fb kb, folded s1_def t1_def]
  note c1 = hop_config [of s "''B-D''" 1, folded s1_def]
  note f1 = hop_frame [of "''B-D''" 1 s, folded s1_def]
  have l1: "links s1 = default_links" using c1 l by (simp add: same_config_def)
  have fd: "find_link (links s1) ''D-E'' = Some \<lparr>link_from = ''D'', link_to = ''E'', capacity = 60\<rparr>"
    by (simp add: l1 default_link_keys)
  have kd1: "''D-E'' \<in> fst ` set (queues s1)"
    using h1 kd by (metis set_map)
  note h2 = hop_exact [OF fd kd1, folded s2_def t2_def]
  note c2 = hop_config [of s1 "''D-E''" 1, folded s2_def]
  note f2 = hop_frame [of "''D-E''" 1 s1, folded s2_def]
  define ok where "ok \<longleftrightarrow> t1 \<and> t2"
  have tr: "transmit [''B'', ''D'', ''E''] ([], True, s) = (route, ok, s2)"
    by (simp add: Let_def case_prod_beta linkKey_def s1_def t1_def s2_def t2_def route_def ok_def)
  have dest: "getRandomDestination ''B'' 3 = Some ''E''"
    by (simp add: getRandomDestination_def nodes_def)
  define pk where "pk = \<lparr>pkt_id = ''B'' @ ''-'' @ ''E'' @ ''-'' @ string_of_nat i,
                          pkt_source = ''B'', pkt_destination = ''E'',
                          pkt_path = [''B'', ''D'', ''E''], pkt_route = route,
                          pkt_transmitted = ok,
                          pkt_timestamp = simulationStep s2\<rparr>"
  define s3 where "s3 = s2\<lparr>packetStats := packetStats s2 @ [pk]\<rparr>"
  have n3: "nodeStats s3 = nodeStats s" using f1 f2 by (simp add: s3_def)
  have v2: "bde_view s2 = (min 70 (or0 (linkLoads s) ''B-D'' + 1), min 60 (or0 (linkLoads s) ''D-E'' + 1),
      or0 (queues s) ''B-D'' + max 0 (or0 (linkLoads s) ''B-D'' + 1 - 70),
      or0 (queues s) ''D-E'' + max 0 (or0 (linkLoads s) ''D-E'' + 1 - 60),
      totalPacketsTransmitted s)"
    using h1 h2 f1 f2 by (simp add: bde_view_def)
  have fr2: "bde_frame s s2"
    using same_config_trans [OF c1 c2] h1 h2 f1 f2 by (simp add: bde_frame_def)
  have tt: "ok = (or0 (linkLoads s) ''B-D'' < 70 \<and> or0 (linkLoads s) ''D-E'' < 60)"
    using h1 h2 by (simp add: ok_def)
  show ?thesis
  proof (cases ok)
    case False
    have "packet_step (\<lambda>source i. 3) ''B'' i s = Inr s3"
      using False tr dest
      by (simp add: packet_step_def l default_routes send_packet_def Let_def s3_def pk_def)
    moreover have "bde_frame s s3"
      using fr2 by (simp add: bde_frame_def same_config_def s3_def)
    moreover have "bde_view s3 = bde_packet (bde_view s)"
      using v2 False tt by (simp add: bde_view_def s3_def)
    ultimately show ?thesis by blast
  next
    case True
    from e n3 have "map_of (nodeStats s3) ''E'' \<noteq> None" by (simp add: map_of_eq_None_iff)
    then obtain st where st: "map_of (nodeStats s3) ''E'' = Some st" by blast
    define s4 where "s4 = s3\<lparr>nodeStats := AList.update ''E''
         (st\<lparr>packetsReceived := packetsReceived st + 1\<rparr>) (nodeStats s3),
         totalPacketsTransmitted := totalPacketsTransmitted s3 + 1\<rparr>"
    from st have st2: "map_of (nodeStats s2) ''E'' = Some st" by (simp add: s3_def)
    have "packet_step (\<lambda>source i. 3) ''B'' i s = Inr s4"
      using True tr dest st2
      by (simp add: packet_step_def l default_routes send_packet_def Let_def s3_def pk_def s4_def)
    moreover have "bde_frame s s4"
      using fr2 keys_update_present [OF st] n3
      by (simp add: bde_frame_def same_config_def s3_def s4_def)
    moreover have "bde_view s4 = bde_packet (bde_view s)"
      using v2 True tt by (simp add: bde_view_def s3_def s4_def)
    ultimately show ?thesis by blast
  qed
qed

lemma packet_loop_B_to_E:
  "links s = default_links \<Longrightarrow> ''E'' \<in> fst ` set (nodeStats s) \<Longrightarrow>
   ''B-D'' \<in> fst ` set (queues s) \<Longrightarrow> ''D-E'' \<in> fst ` set (queues s) \<Longrightarrow>
   \<exists>s'. packet_loop (\<lambda>source i. 3) ''B'' js s = Inr s' \<and> bde_frame s s' \<and>
        bde_view s' = (bde_packet ^^ length js) (bde_view s)"
proof (induction js arbitrary: s)
  case Nil
  then show ?case by (simp add: bde_frame_refl)
next
  case (Cons j js)
  from packet_B_to_E [OF Cons.prems, of j]
  obtain s1 where s1: "packet_step (\<lambda>source i. 3) ''B'' j s = Inr s1" "bde_frame s s1"
    "bde_view s1 = bde_packet (bde_view s)" by blast
  from s1(2) Cons.prems have p1: "links s1 = default_links" "''E'' \<in> fst ` set (nodeStats s1)"
    "''B-D'' \<in> fst ` set (queues s1)" "''D-E'' \<in> fst ` set (queues s1)"
    by (simp_all add: bde_frame_def same_config_def flip: set_map)
  from Cons.IH [OF p1]
  obtain s' where s': "packet_loop (\<lambda>source i. 3) ''B'' js s1 = Inr s'" "bde_frame s1 s'"
    "bde_view s' = (bde_packet ^^ length js) (bde_view s1)" by blast
  from s1 s' bde_frame_trans [OF s1(2) s'(2)] show ?case
    by (simp add: funpow_swap1)
qed

lemma bde_packets:
  "(bde_packet ^^ n) (0, 0, qb, qd, t) =
     (min 70 (int n), min 60 (int n), qb + max 0 (int n - 70), qd + max 0 (int n - 60),
      t + min 60 (int n))"
  by (induction n) auto


lemma idle_source:
  assumes "src \<in> fst ` set (nodeStats s)"
  shows "\<exists>s'. source_step rnd (src, 0) (s, g) = Inr (s', g) \<and> bde_frame s s' \<and>
           bde_view s' = bde_view s \<and> linkLoads s' = linkLoads s"
proof -
  from assms have "map_of (nodeStats s) src \<noteq> None" by (simp add: map_of_eq_None_iff)
  then obtain st where st: "map_of (nodeStats s) src = Some st" by blast
  define s1 where "s1 = s\<lparr>nodeStats := AList.update src
        (st\<lparr>packetsGenerated := packetsGenerated st + 0, currentLoad := 0\<rparr>) (nodeStats s)\<rparr>"
  have "source_step rnd (src, 0) (s, g) = Inr (s1, g)"
    using st by (simp add: source_step_def Let_def s1_def)
  moreover have "bde_frame s s1"
    using keys_update_present [OF st] by (simp add: bde_frame_def same_config_def s1_def)
  moreover have "bde_view s1 = bde_view s" "linkLoads s1 = linkLoads s"
    by (simp_all add: bde_view_def s1_def)
  ultimately show ?thesis by blast
qed

lemma busy_source:
  assumes l: "links s = default_links" and n: "set nodes \<subseteq> fst ` set (nodeStats s)"
    and kb: "''B-D'' \<in> fst ` set (queues s)" and kd: "''D-E'' \<in> fst ` set (queues s)"
    and z: "linkLoads s = []"
  shows "\<exists>s'. source_step (\<lambda>source i. 3) (''B'', 81) (s, g) = Inr (s', g + 81) \<and> bde_frame s s' \<and>
           bde_view s' = (70, 60, or0 (queues s) ''B-D'' + 11, or0 (queues s) ''D-E'' + 21,
                      totalPacketsTransmitted s + 60)"
proof -
  from n have "map_of (nodeStats s) ''B'' \<noteq> None"
    by (auto simp: map_of_eq_None_iff nodes_def)
  then obtain st where st: "map_of (nodeStats s) ''B'' = Some st" by blast
  define s1 where "s1 = s\<lparr>nodeStats := AList.update ''B''
        (st\<lparr>packetsGenerated := packetsGenerated st + 81, currentLoad := 81\<rparr>) (nodeStats s)\<rparr>"
  have k1: "fst ` set (nodeStats s1) = fst ` set (nodeStats s)"
    using keys_update_present [OF st] by (simp add: s1_def)
  have f1: "bde_frame s s1"
    using k1 by (simp add: bde_frame_def same_config_def s1_def)
  have v1: "bde_view s1 = (0, 0, or0 (queues s) ''B-D'', or0 (queues s) ''D-E'', totalPacketsTransmitted s)"
    using z by (simp add: bde_view_def s1_def or0_def)
  have p1: "links s1 = default_links" "''E'' \<in> fst ` set (nodeStats s1)"
    "''B-D'' \<in> fst ` set (queues s1)" "''D-E'' \<in> fst ` set (queues s1)"
    using l n kb kd k1 by (auto simp: s1_def nodes_def)
  from packet_loop_B_to_E [OF p1, of "[0..<81]"]
  obtain s' where s': "packet_loop (\<lambda>source i. 3) ''B'' [0..<81] s1 = Inr s'" "bde_frame s1 s'"
    "bde_view s' = (bde_packet ^^ 81) (bde_view s1)" by auto
  have "source_step (\<lambda>source i. 3) (''B'', 81) (s, g) = Inr (s', g + 81)"
    using st s'(1) by (simp add: source_step_def Let_def s1_def)
  moreover have "bde_view s' = (70, 60, or0 (queues s) ''B-D'' + 11, or0 (queues s) ''D-E'' + 21,
                      totalPacketsTransmitted s + 60)"
    using s'(3) bde_packets [of 81] by (simp add: v1)
  ultimately show ?thesis using bde_frame_trans [OF f1 s'(2)] by blast
qed

lemma released_or0:
  "released s k =
     (if 0 < or0 (queues s) k
      then (case find_link (links s) k of None \<Rightarrow> 0 | Some l \<Rightarrow> min (or0 (queues s) k) (capacity l))
      else 0)"
  by (simp add: released_def or0_def split: option.splits)

lemma fold_drain_or0:
  "distinct ks \<Longrightarrow>
   or0 (queues (fold drain_key ks s)) k =
     (if k \<in> set ks then or0 (queues s) k - released s k else or0 (queues s) k)"
  by (simp add: or0_def fold_drain_queue released_def split: option.splits)

lemma drain_key_keys: "map fst (queues (drain_key k s)) = map fst (queues s)"
proof (cases "map_of (queues s) k")
  case None
  then show ?thesis by (simp add: drain_key_def)
next
  case (Some q)
  then have "k \<in> fst ` set (queues s)" by (force dest: map_of_SomeD)
  with Some show ?thesis
    by (simp add: drain_key_def Let_def keys_update_in split: option.splits)
qed

lemma fold_drain_keys: "map fst (queues (fold drain_key ks s)) = map fst (queues s)"
  by (induction ks arbitrary: s) (simp_all add: drain_key_keys)

lemma busy_tick:
  assumes i: "busy_inv s"
    and a: "0 \<le> or0 (queues s) ''B-D''" "or0 (queues s) ''B-D'' \<le> 70"
    and b: "0 \<le> or0 (queues s) ''D-E''" "or0 (queues s) ''D-E'' \<le> 60"
  shows "\<exists>s'. simulateTick (\<lambda>source i. 3) s = Inr s' \<and> busy_inv s' \<and>
           or0 (queues s') ''B-D'' = 11 \<and> or0 (queues s') ''D-E'' = 21 \<and>
           totalPacketsTransmitted s' =
             totalPacketsTransmitted s + or0 (queues s) ''B-D'' + or0 (queues s) ''D-E'' + 60 \<and>
           totalPacketsGenerated s' = totalPacketsGenerated s + 81"
proof -
  let ?rnd = "\<lambda>source i. 3 :: nat"
  define s1 where "s1 = s\<lparr>linkLoads := [], packetStats := []\<rparr>"
  define s2 where "s2 = processQueuedPackets s1"
  let ?ks = "[''A-B'', ''A-C'', ''B-D'', ''C-D'', ''C-E'', ''D-E'']"
  from i have rates: "map_of (trafficRates s) (currentTime s) =
       Some [(''A'', 0), (''B'', 81), (''C'', 0), (''D'', 0), (''E'', 0)]"
    and l: "links s = default_links" and n: "set nodes \<subseteq> fst ` set (nodeStats s)"
    and ks: "map fst (queues s) = ?ks"
    and z: "\<And>k. k \<noteq> ''B-D'' \<Longrightarrow> k \<noteq> ''D-E'' \<Longrightarrow> or0 (queues s) k = 0"
    by (simp_all add: busy_inv_def)
  have d: "distinct ?ks" by simp
  have s2: "s2 = fold drain_key ?ks s1"
    by (simp add: s2_def processQueuedPackets_def s1_def ks)
  have q1: "queues s1 = queues s" "links s1 = default_links"
    by (simp_all add: s1_def l)
  have rel: "released s1 ''A-B'' = 0" "released s1 ''A-C'' = 0" "released s1 ''C-D'' = 0"
    "released s1 ''C-E'' = 0" "released s1 ''B-D'' = or0 (queues s) ''B-D''"
    "released s1 ''D-E'' = or0 (queues s) ''D-E''"
    using a b by (simp_all add: released_or0 q1 z find_link_B_D default_link_keys)
  have f2: "links s2 = default_links" "trafficRates s2 = trafficRates s"
    "currentTime s2 = currentTime s" "linkLoads s2 = []" "nodeStats s2 = nodeStats s"
    "totalPacketsGenerated s2 = totalPacketsGenerated s"
    by (simp_all add: s2_def processQueuedPackets_def fold_drain_frame s1_def l)
  have k2: "map fst (queues s2) = ?ks"
    unfolding s2 fold_drain_keys by (simp add: q1 ks)
  have t2: "totalPacketsTransmitted s2 =
      totalPacketsTransmitted s + or0 (queues s) ''B-D'' + or0 (queues s) ''D-E''"
    unfolding s2 fold_drain_total [OF d] by (simp add: rel) (simp add: s1_def)
  have z2: "or0 (queues s2) k = 0" for k
    unfolding s2 fold_drain_or0 [OF d] using z [of k] rel by (auto simp: q1)
  have nd: "''A'' \<in> set nodes" "''B'' \<in> set nodes" "''C'' \<in> set nodes" "''D'' \<in> set nodes"
      "''E'' \<in> set nodes"
    by (simp_all add: nodes_def)
  from idle_source [of "''A''" s2 ?rnd 0] n nd f2
  obtain sa where sa: "source_step ?rnd (''A'', 0) (s2, 0) = Inr (sa, 0)" "bde_frame s2 sa"
    "bde_view sa = bde_view s2" "linkLoads sa = linkLoads s2" by auto
  have pa: "links sa = default_links" "set nodes \<subseteq> fst ` set (nodeStats sa)"
    "''B-D'' \<in> fst ` set (queues sa)" "''D-E'' \<in> fst ` set (queues sa)" "linkLoads sa = []"
    using sa(2,4) f2 n k2 by (simp_all add: bde_frame_def same_config_def flip: set_map)
  from busy_source [OF pa, of 0]
  obtain sb where sb: "source_step ?rnd (''B'', 81) (sa, 0) = Inr (sb, 81)" "bde_frame sa sb"
    "bde_view sb = (70, 60, or0 (queues sa) ''B-D'' + 11, or0 (queues sa) ''D-E'' + 21,
                      totalPacketsTransmitted sa + 60)" by auto
  have nb: "set nodes \<subseteq> fst ` set (nodeStats sb)"
    using sb(2) pa(2) by (simp add: bde_frame_def)
  from idle_source [of "''C''" sb ?rnd 81] nb nd
  obtain sc where sc: "source_step ?rnd (''C'', 0) (sb, 81) = Inr (sc, 81)" "bde_frame sb sc"
    "bde_view sc = bde_view sb" by auto
  have nc: "set nodes \<subseteq> fst ` set (nodeStats sc)"
    using sc(2) nb by (simp add: bde_frame_def)
  from idle_source [of "''D''" sc ?rnd 81] nc nd
  obtain sd where sd: "source_step ?rnd (''D'', 0) (sc, 81) = Inr (sd, 81)" "bde_frame sc sd"
    "bde_view sd = bde_view sc" by auto
  have ne: "set nodes \<subseteq> fst ` set (nodeStats sd)"
    using sd(2) nc by (simp add: bde_frame_def)
  from idle_source [of "''E''" sd ?rnd 81] ne nd
  obtain se where se: "source_step ?rnd (''E'', 0) (sd, 81) = Inr (se, 81)" "bde_frame sd se"
    "bde_view se = bde_view sd" by auto
  have loop: "source_loop ?rnd [(''A'', 0), (''B'', 81), (''C'', 0), (''D'', 0), (''E'', 0)] (s2, 0)
      = Inr (se, 81)"
    using sa(1) sb(1) sc(1) sd(1) se(1) by simp
  have fr: "bde_frame s2 se"
    using sa(2) sb(2) sc(2) sd(2) se(2) by (blast intro: bde_frame_trans)
  have va: "or0 (queues sa) ''B-D'' = 0" "or0 (queues sa) ''D-E'' = 0"
    "totalPacketsTransmitted sa = totalPacketsTransmitted s2"
    using sa(3) z2 by (simp_all add: bde_view_def)
  have ve: "bde_view se = (70, 60, 11, 21, totalPacketsTransmitted s2 + 60)"
    using se(3) sd(3) sc(3) sb(3) va by simp
  define s4 where "s4 = se\<lparr>totalPacketsGenerated := totalPacketsGenerated se + 81,
                          simulationStep := simulationStep se + 1\<rparr>"
  have "simulateTick ?rnd s = Inr s4"
    using rates loop
    by (simp add: simulateTick_def Let_def s1_def [symmetric] s2_def [symmetric] s4_def)
  moreover have "busy_inv s4"
    using fr f2 rates n k2 z2
    by (simp add: busy_inv_def bde_frame_def same_config_def s4_def)
  moreover have "or0 (queues s4) ''B-D'' = 11" "or0 (queues s4) ''D-E'' = 21"
    "totalPacketsTransmitted s4 =
       totalPacketsTransmitted s + or0 (queues s) ''B-D'' + or0 (queues s) ''D-E'' + 60"
    using ve t2 by (simp_all add: bde_view_def s4_def)
  moreover have "totalPacketsGenerated s4 = totalPacketsGenerated s + 81"
    using fr f2 by (simp add: bde_frame_def same_config_def s4_def)
  ultimately show ?thesis by blast
qed

lemma busy_example_eq:
  "busy_example =
     initial_state\<lparr>trafficRates :=
       [(''08:00'', [(''A'', 0), (''B'', 81), (''C'', 0), (''D'', 0), (''E'', 0)]),
        (''08:15'', [(''A'', 55), (''B'', 35), (''C'', 45), (''D'', 25), (''E'', 65)]),
        (''08:30'', [(''A'', 60), (''B'', 40), (''C'', 50), (''D'', 30), (''E'', 70)]),
        (''08:45'', [(''A'', 55), (''B'', 35), (''C'', 45), (''D'', 25), (''E'', 65)])]\<rparr>"
  by (simp add: busy_example_def updateTrafficRates_def initial_state_eq default_trafficRates_def
      nodes_def Let_def)

lemma busy_example_inv:
  "busy_inv busy_example" "or0 (queues busy_example) ''B-D'' = 0"
  "or0 (queues busy_example) ''D-E'' = 0"
  "totalPacketsTransmitted busy_example = 0" "totalPacketsGenerated busy_example = 0"
  by (simp_all add: busy_example_eq initial_state_eq busy_inv_def nodes_def or0_def)

text \<open>
  C1. The bound does not hold for every table of nonnegative rates at the default capacities.
  With the rate of B at 81, the other rates at 0 and every packet of B drawn for E, the
  packets 61 to 70 of a tick overflow D-E and the packets 71 to 81 overflow both B-D and D-E:
  these are queued on both links, and the next tick's drain counts them twice. The counters
  (transmitted, generated) are (60, 81) after one tick, (152, 162) after two and (244, 243)
  after three, and the packet loss that \<^verbatim>\<open>getNetworkStats\<close> reports is negative.
\<close>

theorem transmitted_exceeds_generated_after_double_overflow:
  "(case ticks [\<lambda>source i. 3] busy_example of
      Inr s \<Rightarrow> totalPacketsTransmitted s = 60 \<and> totalPacketsGenerated s = 81
    | Inl e \<Rightarrow> False) \<and>
   (case ticks [\<lambda>source i. 3, \<lambda>source i. 3] busy_example of
      Inr s \<Rightarrow> totalPacketsTransmitted s = 152 \<and> totalPacketsGenerated s = 162
    | Inl e \<Rightarrow> False) \<and>
   (case ticks [\<lambda>source i. 3, \<lambda>source i. 3, \<lambda>source i. 3] busy_example of
      Inr s \<Rightarrow> totalPacketsTransmitted s = 244 \<and> totalPacketsGenerated s = 243 \<and>
        sum_packetLoss (snap_summary (fst (getNetworkStats s))) = Some (- (100 / 243))
    | Inl e \<Rightarrow> False)"
proof -
  from busy_tick [OF busy_example_inv(1)] busy_example_inv
  obtain s1 where s1: "simulateTick (\<lambda>source i. 3) busy_example = Inr s1" "busy_inv s1"
    "or0 (queues s1) ''B-D'' = 11" "or0 (queues s1) ''D-E'' = 21"
    "totalPacketsTransmitted s1 = 60" "totalPacketsGenerated s1 = 81"
    by auto
  from busy_tick [OF s1(2)] s1
  obtain s2 where s2: "simulateTick (\<lambda>source i. 3) s1 = Inr s2" "busy_inv s2"
    "or0 (queues s2) ''B-D'' = 11" "or0 (queues s2) ''D-E'' = 21"
    "totalPacketsTransmitted s2 = 152" "totalPacketsGenerated s2 = 162"
    by auto
  from busy_tick [OF s2(2)] s2
  obtain s3 where s3: "simulateTick (\<lambda>source i. 3) s2 = Inr s3"
    "totalPacketsTransmitted s3 = 244" "totalPacketsGenerated s3 = 243"
    by auto
  have "sum_packetLoss (snap_summary (fst (getNetworkStats s3))) = Some (- (100 / 243))"
    by (simp add: getNetworkStats_def js_div_def s3)
  with s1 s2 s3 show ?thesis by simp
qed

subsection \<open>Resetting the simulation\<close>

lemma initializeNetwork_frame:
  "packetStats (initializeNetwork s) = packetStats s \<and>
   simulationStep (initializeNetwork s) = simulationStep s \<and>
   currentTime (initializeNetwork s) = currentTime s \<and>
   totalPacketsGenerated (initializeNetwork s) = totalPacketsGenerated s \<and>
   totalPacketsTransmitted (initializeNetwork s) = totalPacketsTransmitted s \<and>
   links (initializeNetwork s) = links s"
  by (simp add: initializeNetwork_def Let_def fold_init_link_frame)

text \<open>
  C4. After \<open>resetSimulation\<close> the snapshot shows tick counter 0, the slot 08:00, both
  cumulative counters 0 and every queue 0, but \<open>packetStats\<close> is not among the fields the
  function writes: the snapshot still carries the packet history the state had before the
  reset. One tick from the initial state followed by a reset leaves 200 packets in it.
\<close>

theorem reset_leaves_packet_history:
  "snap_simulationStep (fst (getNetworkStats (resetSimulation s))) = 0 \<and>
   snap_currentTime (fst (getNetworkStats (resetSimulation s))) = ''08:00'' \<and>
   sum_totalPacketsGenerated (snap_summary (fst (getNetworkStats (resetSimulation s)))) = 0 \<and>
   sum_totalPacketsTransmitted (snap_summary (fst (getNetworkStats (resetSimulation s)))) = 0 \<and>
   (\<forall>v\<in>set (snap_links (fst (getNetworkStats (resetSimulation s)))). lv_queueSize v = 0) \<and>
   snap_packets (fst (getNetworkStats (resetSimulation s))) = packetStats s \<and>
   (\<exists>s1. simulateTick rnd initial_state = Inr s1 \<and>
      length (snap_packets (fst (getNetworkStats (resetSimulation s1)))) = 200)"
proof -
  from tick_preserves_inv [OF tick_inv_initial, of rnd]
  obtain s1 where s1: "simulateTick rnd initial_state = Inr s1" "length (packetStats s1) = 200"
    by blast
  have p: "snap_packets (fst (getNetworkStats (resetSimulation t))) = packetStats t" for t
    by (simp add: getNetworkStats_def resetSimulation_def initializeNetwork_frame)
  have q: "\<forall>v\<in>set (snap_links (fst (getNetworkStats (resetSimulation s)))). lv_queueSize v = 0"
    by (simp add: getNetworkStats_def resetSimulation_def linkStats_def Let_def initializeNetwork_tables)
  from s1 p q show ?thesis
    by (simp add: getNetworkStats_def resetSimulation_def initializeNetwork_frame)
qed

theorem reset_leaves_packet_history_witness:
  "\<exists>s1. simulateTick (\<lambda>source i. 0) initial_state = Inr s1 \<and>
      length (snap_packets (fst (getNetworkStats (resetSimulation s1)))) = 200 \<and>
      snap_simulationStep (fst (getNetworkStats (resetSimulation s1))) = 0"
  using reset_leaves_packet_history [of initial_state "\<lambda>source i. 0"]
    reset_leaves_packet_history [of _ "\<lambda>source i. 0"]
  by blast

subsection \<open>The router returns a shortest route\<close>

paragraph \<open>The adjacency list\<close>

lemma adjacent_Nil: "\<not> adjacent [] a b"
  by (simp add: adjacent_def)

lemma adjacent_Cons:
  "adjacent (l # ls) a b \<longleftrightarrow>
     (link_from l = a \<and> link_to l = b) \<or> (link_from l = b \<and> link_to l = a) \<or> adjacent ls a b"
  by (auto simp: adjacent_def)

lemma adjacent_append: "adjacent (xs @ ys) a b \<longleftrightarrow> adjacent xs a b \<or> adjacent ys a b"
  by (auto simp: adjacent_def)

lemma add_edge_graph:
  assumes "graph_of seen g" and "add_edge l g = Inr g'"
  shows "graph_of (seen @ [l]) g'"
proof -
  from assms(2) obtain xs where xs: "g (link_from l) = Some xs"
    by (auto simp: add_edge_def split: option.splits)
  let ?g1 = "g(link_from l \<mapsto> xs @ [(link_to l, 1)])"
  from assms(2) xs obtain ys where ys: "?g1 (link_to l) = Some ys"
    and g': "g' = ?g1(link_to l \<mapsto> ys @ [(link_from l, 1)])"
    by (auto simp: add_edge_def Let_def split: option.splits)
  show ?thesis
    unfolding graph_of_def
  proof (intro allI impI)
    fix a nbs assume a: "g' a = Some nbs"
    show "(\<forall>nb\<in>set nbs. snd nb = 1 \<and> adjacent (seen @ [l]) a (fst nb)) \<and>
          (\<forall>b. adjacent (seen @ [l]) a b \<longrightarrow> b \<in> fst ` set nbs)"
    proof (cases "a = link_to l")
      case True
      note at = this
      show ?thesis
      proof (cases "a = link_from l")
        case True
        with at xs ys a g' have nbs: "nbs = xs @ [(a, 1), (a, 1)]" by auto
        from assms(1) xs True have "(\<forall>nb\<in>set xs. snd nb = 1 \<and> adjacent seen a (fst nb)) \<and>
          (\<forall>b. adjacent seen a b \<longrightarrow> b \<in> fst ` set xs)"
          by (simp add: graph_of_def)
        with nbs True at show ?thesis
          by (auto simp: adjacent_append adjacent_Cons adjacent_Nil)
      next
        case False
        with at ys have gy: "g a = Some ys" by simp
        from a g' at have nbs: "nbs = ys @ [(link_from l, 1)]" by auto
        from assms(1) gy have "(\<forall>nb\<in>set ys. snd nb = 1 \<and> adjacent seen a (fst nb)) \<and>
          (\<forall>b. adjacent seen a b \<longrightarrow> b \<in> fst ` set ys)"
          by (simp add: graph_of_def)
        with nbs False at show ?thesis
          by (auto simp: adjacent_append adjacent_Cons adjacent_Nil)
      qed
    next
      case False
      note at = this
      show ?thesis
      proof (cases "a = link_from l")
        case True
        with at a g' have nbs: "nbs = xs @ [(link_to l, 1)]" by auto
        from assms(1) xs True have "(\<forall>nb\<in>set xs. snd nb = 1 \<and> adjacent seen a (fst nb)) \<and>
          (\<forall>b. adjacent seen a b \<longrightarrow> b \<in> fst ` set xs)"
          by (simp add: graph_of_def)
        with nbs True at show ?thesis
          by (auto simp: adjacent_append adjacent_Cons adjacent_Nil)
      next
        case False
        with at a g' have "g a = Some nbs" by simp
        with assms(1) have "(\<forall>nb\<in>set nbs. snd nb = 1 \<and> adjacent seen a (fst nb)) \<and>
          (\<forall>b. adjacent seen a b \<longrightarrow> b \<in> fst ` set nbs)"
          by (simp add: graph_of_def)
        with False at show ?thesis
          by (auto simp: adjacent_append adjacent_Cons adjacent_Nil)
      qed
    qed
  qed
qed

lemma add_edges_graph:
  "graph_of seen g \<Longrightarrow> add_edges ls g = Inr g' \<Longrightarrow> graph_of (seen @ ls) g'"
proof (induction ls arbitrary: seen g)
  case Nil
  then show ?case by simp
next
  case (Cons l ls)
  from Cons.prems(2) obtain g1 where g1: "add_edge l g = Inr g1" "add_edges ls g1 = Inr g'"
    by (auto split: sum.splits)
  from Cons.IH [OF add_edge_graph [OF Cons.prems(1) g1(1)] g1(2)] show ?case by simp
qed

lemma init_graph_empty: "init_graph ns g a = (if a \<in> set ns then Some [] else g a)"
  by (induction ns arbitrary: g) simp_all

lemma init_graph_of: "graph_of [] (init_graph ns Map.empty)"
  by (simp add: graph_of_def init_graph_empty adjacent_Nil)

paragraph \<open>The scan for the closest unvisited node\<close>

lemma find_min_spec:
  "(cur = None \<and> m = \<infinity>) \<or> (\<exists>c. cur = Some c \<and> d c = Some m \<and> m < \<infinity>) \<Longrightarrow>
   find_min d u (cur, m) = (cur', m') \<Longrightarrow>
     (\<forall>a\<in>set u. \<forall>x. d a = Some x \<longrightarrow> m' \<le> x) \<and> m' \<le> m \<and>
     ((cur' = None \<and> m' = \<infinity>) \<or>
      (\<exists>c. cur' = Some c \<and> d c = Some m' \<and> m' < \<infinity> \<and> (c \<in> set u \<or> cur = Some c)))"
proof (induction u arbitrary: cur m)
  case Nil
  then show ?case by auto
next
  case (Cons a u)
  show ?case
  proof (cases "d a")
    case None
    with Cons.prems(2) have "find_min d u (cur, m) = (cur', m')" by simp
    from Cons.IH [OF Cons.prems(1) this] None show ?thesis by auto
  next
    case (Some x)
    show ?thesis
    proof (cases "x < m")
      case True
      with Some Cons.prems(2) have f: "find_min d u (Some a, x) = (cur', m')" by simp
      from True have "x < \<infinity>" by (metis enat_ord_simps(4) order_less_trans not_less_iff_gr_or_eq)
      with Some have "(Some a = None \<and> x = \<infinity>) \<or> (\<exists>c. Some a = Some c \<and> d c = Some x \<and> x < \<infinity>)"
        by simp
      from Cons.IH [OF this f] Some True show ?thesis by auto
    next
      case False
      with Some Cons.prems(2) have "find_min d u (cur, m) = (cur', m')" by simp
      from Cons.IH [OF Cons.prems(1) this] Some False show ?thesis by auto
    qed
  qed
qed

lemma find_min_None:
  assumes "fst (find_min d u (None, \<infinity>)) = None" and "a \<in> set u" and "d a = Some x"
  shows "x = \<infinity>"
proof -
  obtain cur' m' where f: "find_min d u (None, \<infinity>) = (cur', m')" by (cases "find_min d u (None, \<infinity>)") auto
  from find_min_spec [OF _ f] assms f show ?thesis by auto
qed

lemma find_min_Some:
  assumes "fst (find_min d u (None, \<infinity>)) = Some c"
  shows "c \<in> set u \<and> (\<exists>n. d c = Some (enat n) \<and> (\<forall>a\<in>set u. \<forall>x. d a = Some x \<longrightarrow> enat n \<le> x))"
proof -
  obtain cur' m' where f: "find_min d u (None, \<infinity>) = (cur', m')" by (cases "find_min d u (None, \<infinity>)") auto
  from find_min_spec [OF _ f] assms f
  have "c \<in> set u" and m: "d c = Some m'" "m' < \<infinity>" and le: "\<forall>a\<in>set u. \<forall>x. d a = Some x \<longrightarrow> m' \<le> x"
    by auto
  from m(2) obtain n where "m' = enat n" by (cases m') auto
  with \<open>c \<in> set u\<close> m le show ?thesis by auto
qed

paragraph \<open>Relaxing the neighbours\<close>

lemma relax_one_eq:
  assumes "d c = Some (enat n)" and "snd nb = 1"
  shows "relax_one u c nb (d, p) =
     (if fst nb \<in> set u \<and> (\<exists>x. d (fst nb) = Some x \<and> enat (Suc n) < x)
      then (d(fst nb \<mapsto> enat (Suc n)), p(fst nb \<mapsto> Some c)) else (d, p))"
  using assms by (auto simp: relax_one_def Let_def one_enat_def split: option.splits)

lemma relax_closed:
  "c \<notin> set u \<Longrightarrow> d c = Some (enat n) \<Longrightarrow> \<forall>nb\<in>set nbs. snd nb = 1 \<Longrightarrow>
   (\<forall>a. fst (relax u c nbs (d, p)) a =
      (if a \<in> set u \<and> a \<in> fst ` set nbs \<and> (\<exists>x. d a = Some x \<and> enat (Suc n) < x)
       then Some (enat (Suc n)) else d a)) \<and>
   (\<forall>a. snd (relax u c nbs (d, p)) a =
      (if a \<in> set u \<and> a \<in> fst ` set nbs \<and> (\<exists>x. d a = Some x \<and> enat (Suc n) < x)
       then Some (Some c) else p a))"
proof (induction nbs arbitrary: d p)
  case Nil
  then show ?case by simp
next
  case (Cons nb nbs)
  let ?b = "fst nb"
  from Cons.prems have w: "snd nb = 1" and ws: "\<forall>nb\<in>set nbs. snd nb = 1" by simp_all
  show ?case
  proof (cases "?b \<in> set u \<and> (\<exists>x. d ?b = Some x \<and> enat (Suc n) < x)")
    case True
    define d1 where "d1 = d(?b \<mapsto> enat (Suc n))"
    define p1 where "p1 = p(?b \<mapsto> Some c)"
    from True relax_one_eq [where d = d and c = c and n = n and nb = nb and u = u and p = p, OF Cons.prems(2) w]
    have r: "relax u c (nb # nbs) (d, p) = relax u c nbs (d1, p1)" by (simp add: d1_def p1_def)
    from True Cons.prems(1) have "?b \<noteq> c" by auto
    with Cons.prems(2) have "d1 c = Some (enat n)" by (simp add: d1_def)
    note ih = Cons.IH [of d1 p1, OF Cons.prems(1) this ws]
    have d1b: "d1 ?b = Some (enat (Suc n))" "p1 ?b = Some (Some c)" by (simp_all add: d1_def p1_def)
    have d1o: "a \<noteq> ?b \<Longrightarrow> d1 a = d a \<and> p1 a = p a" for a by (simp add: d1_def p1_def)
    show ?thesis
      unfolding r
    proof (intro conjI allI)
      fix a
      show "fst (relax u c nbs (d1, p1)) a =
        (if a \<in> set u \<and> a \<in> fst ` set (nb # nbs) \<and> (\<exists>x. d a = Some x \<and> enat (Suc n) < x)
         then Some (enat (Suc n)) else d a)"
      proof (cases "a = ?b")
        case True
        with ih d1b \<open>?b \<in> set u \<and> (\<exists>x. d ?b = Some x \<and> enat (Suc n) < x)\<close> show ?thesis by auto
      next
        case False
        with ih d1o [OF False] show ?thesis by auto
      qed
      show "snd (relax u c nbs (d1, p1)) a =
        (if a \<in> set u \<and> a \<in> fst ` set (nb # nbs) \<and> (\<exists>x. d a = Some x \<and> enat (Suc n) < x)
         then Some (Some c) else p a)"
      proof (cases "a = ?b")
        case True
        with ih d1b \<open>?b \<in> set u \<and> (\<exists>x. d ?b = Some x \<and> enat (Suc n) < x)\<close> show ?thesis by auto
      next
        case False
        with ih d1o [OF False] show ?thesis by auto
      qed
    qed
  next
    case False
    from False relax_one_eq [where d = d and c = c and n = n and nb = nb and u = u and p = p, OF Cons.prems(2) w]
    have r: "relax u c (nb # nbs) (d, p) = relax u c nbs (d, p)" by auto
    note ih = Cons.IH [of d p, OF Cons.prems(1) Cons.prems(2) ws]
    show ?thesis
      unfolding r
    proof (intro conjI allI)
      fix a
      show "fst (relax u c nbs (d, p)) a =
        (if a \<in> set u \<and> a \<in> fst ` set (nb # nbs) \<and> (\<exists>x. d a = Some x \<and> enat (Suc n) < x)
         then Some (enat (Suc n)) else d a)"
        using ih False by (cases "a = ?b") auto
      show "snd (relax u c nbs (d, p)) a =
        (if a \<in> set u \<and> a \<in> fst ` set (nb # nbs) \<and> (\<exists>x. d a = Some x \<and> enat (Suc n) < x)
         then Some (Some c) else p a)"
        using ih False by (cases "a = ?b") auto
    qed
  qed
qed

paragraph \<open>Walks\<close>

lemma adjacent_in: "links_in ns ls \<Longrightarrow> adjacent ls a b \<Longrightarrow> a \<in> set ns \<and> b \<in> set ns"
  by (auto simp: links_in_def adjacent_def)

lemma walk_nonempty: "walk ls q \<Longrightarrow> q \<noteq> []"
  by (cases q) simp_all

lemma walk_snoc:
  "walk ls q \<Longrightarrow> adjacent ls (last q) a \<Longrightarrow> walk ls (q @ [a])"
  by (induction ls q rule: walk.induct) simp_all

lemma crossing:
  "walk ls q \<Longrightarrow> hd q \<in> S \<Longrightarrow> last q \<notin> S \<Longrightarrow>
   \<exists>q1 x y q2. q = q1 @ x # y # q2 \<and> x \<in> S \<and> y \<notin> S \<and> adjacent ls x y \<and>
      walk ls (q1 @ [x]) \<and> hd (q1 @ [x]) = hd q"
proof (induction ls q rule: walk.induct)
  case (1 ls a b rest)
  show ?case
  proof (cases "b \<in> S")
    case False
    with "1.prems" have "a # b # rest = [] @ a # b # rest \<and> a \<in> S \<and> b \<notin> S \<and> adjacent ls a b \<and>
      walk ls ([] @ [a]) \<and> hd ([] @ [a]) = hd (a # b # rest)" by simp
    then show ?thesis by blast
  next
    case True
    with "1.prems" "1.IH" obtain q1 x y q2 where
      q: "b # rest = q1 @ x # y # q2" "x \<in> S" "y \<notin> S" "adjacent ls x y"
        "walk ls (q1 @ [x])" "hd (q1 @ [x]) = b"
      by auto
    from q(5,6) "1.prems"(1) have "walk ls ((a # q1) @ [x])"
      by (cases "q1 @ [x]") auto
    with q have "a # b # rest = (a # q1) @ x # y # q2 \<and> x \<in> S \<and> y \<notin> S \<and> adjacent ls x y \<and>
      walk ls ((a # q1) @ [x]) \<and> hd ((a # q1) @ [x]) = hd (a # b # rest)" by simp
    then show ?thesis by blast
  qed
next
  case (2 ls a)
  then show ?case by simp
next
  case (3 ls)
  then show ?case by simp
qed

paragraph \<open>The chain of predecessors\<close>

lemma chain_route:
  assumes c: "chained ns ls start d p"
  shows "a \<in> set ns \<Longrightarrow> d a = Some (enat n) \<Longrightarrow>
     \<exists>q. reconstruct p (Some a) acc = Some (q @ acc) \<and> is_route ls start a q \<and> length q = Suc n"
proof (induction n arbitrary: a acc)
  case 0
  have "a = start"
  proof (rule ccontr)
    assume "a \<noteq> start"
    with c "0.prems" show False by (auto simp: chained_def zero_enat_def)
  qed
  with c have "reconstruct p (Some a) acc = reconstruct p None (a # acc)"
    by (subst reconstruct.simps) (simp add: chained_def)
  also have "\<dots> = Some ([a] @ acc)" by (subst reconstruct.simps) simp
  finally show ?case using \<open>a = start\<close> by (auto simp: is_route_def)
next
  case (Suc n)
  from c Suc.prems have "a \<noteq> start" by (auto simp: chained_def zero_enat_def)
  with c Suc.prems obtain b where b: "b \<in> set ns" "adjacent ls b a" "d b = Some (enat n)"
      "p a = Some (Some b)"
    by (auto simp: chained_def)
  from Suc.IH [OF b(1,3), of "a # acc"]
  obtain q where q: "reconstruct p (Some b) (a # acc) = Some (q @ a # acc)" "is_route ls start b q"
    "length q = Suc n" by blast
  have "reconstruct p (Some a) acc = reconstruct p (Some b) (a # acc)"
    by (subst reconstruct.simps) (simp add: b(4))
  with q(1) have "reconstruct p (Some a) acc = Some ((q @ [a]) @ acc)" by simp
  moreover from q(2) b(2) have "is_route ls start a (q @ [a])"
    by (auto simp: is_route_def walk_snoc dest: walk_nonempty)
  ultimately show ?case using q(3) by (intro exI [of _ "q @ [a]"]) simp
qed

lemma chain_reach:
  "chained ns ls start d p \<Longrightarrow> a \<in> set ns \<Longrightarrow> d a = Some (enat n) \<Longrightarrow> reach ls start n a"
  using chain_route [of ns ls start d p a n "[]"] by (auto simp: reach_def)

paragraph \<open>The loop invariant\<close>

lemma dinv_chained: "dinv ns ls start d p u \<Longrightarrow> chained ns ls start d p"
  unfolding dinv_def chained_def by blast

lemma dinv_defined: "dinv ns ls start d p u \<Longrightarrow> a \<in> set ns \<Longrightarrow> \<exists>x. d a = Some x"
  unfolding dinv_def by (cases "a = start") auto

lemma dinv_exact:
  "dinv ns ls start d p u \<Longrightarrow> a \<in> set ns \<Longrightarrow> a \<notin> set u \<Longrightarrow>
   \<exists>n. d a = Some (enat n) \<and> (\<forall>m. reach ls start m a \<longrightarrow> n \<le> m)"
  unfolding dinv_def by blast

lemma dinv_relaxed:
  "dinv ns ls start d p u \<Longrightarrow> a \<in> set ns \<Longrightarrow> a \<notin> set u \<Longrightarrow> adjacent ls a b \<Longrightarrow>
   \<exists>n m. d a = Some (enat n) \<and> d b = Some (enat m) \<and> m \<le> Suc n"
  unfolding dinv_def by blast

lemma dinv_start_visited:
  assumes i: "dinv ns ls start d p u" and c: "c \<noteq> start" "c \<in> set ns" "d c = Some (enat n)"
    and min: "\<forall>a\<in>set u. \<forall>x. d a = Some x \<longrightarrow> enat n \<le> x"
  shows "start \<notin> set u"
proof
  assume "start \<in> set u"
  moreover from i have "d start = Some 0" by (simp add: dinv_def)
  ultimately have "enat n \<le> 0" using min by blast
  then have "n = 0" by (simp add: zero_enat_def)
  moreover from i c obtain m where "d c = Some (enat (Suc m))"
    unfolding dinv_def by (metis enat.distinct(2) option.inject)
  ultimately show False using c(3) by simp
qed

lemma select_exact:
  assumes i: "dinv ns ls start d p u" and l: "links_in ns ls"
    and f: "fst (find_min d u (None, \<infinity>)) = Some c"
  shows "c \<in> set u \<and> (\<exists>n. d c = Some (enat n) \<and> (\<forall>m. reach ls start m c \<longrightarrow> n \<le> m))"
proof -
  from find_min_Some [OF f] obtain n where cu: "c \<in> set u" and dc: "d c = Some (enat n)"
    and min: "\<forall>a\<in>set u. \<forall>x. d a = Some x \<longrightarrow> enat n \<le> x"
    by blast
  from i cu have cn: "c \<in> set ns" by (auto simp: dinv_def)
  have "n \<le> m" if r: "reach ls start m c" for m
  proof (cases "c = start")
    case True
    with i dc show ?thesis by (simp add: dinv_def zero_enat_def)
  next
    case False
    from dinv_start_visited [OF i False cn dc min] have sv: "start \<notin> set u" .
    from i have sn: "start \<in> set ns" by (simp add: dinv_def)
    from r obtain q where q: "walk ls q" "hd q = start" "last q = c" "length q = Suc m"
      by (auto simp: reach_def is_route_def)
    from crossing [OF q(1), of "set ns - set u"] q(2,3) sn sv cu
    obtain q1 x y q2 where x: "q = q1 @ x # y # q2" "x \<in> set ns" "x \<notin> set u" "y \<notin> set ns - set u"
        "adjacent ls x y" "walk ls (q1 @ [x])" "hd (q1 @ [x]) = start"
      by auto
    from x(6,7) have "reach ls start (length q1) x"
      by (auto simp: reach_def is_route_def intro!: exI [of _ "q1 @ [x]"])
    with dinv_exact [OF i x(2,3)] obtain nx where nx: "d x = Some (enat nx)" "nx \<le> length q1"
      by blast
    from dinv_relaxed [OF i x(2,3,5)] nx obtain my where my: "d y = Some (enat my)" "my \<le> Suc nx"
      by auto
    from adjacent_in [OF l x(5)] x(4) have "y \<in> set u" by simp
    with min my(1) have "n \<le> my" by auto
    moreover from x(1) q(4) have "Suc (length q1) \<le> m" by simp
    ultimately show ?thesis using my(2) nx(2) by simp
  qed
  with cu dc show ?thesis by blast
qed

lemma reach_step: "reach ls start n c \<Longrightarrow> adjacent ls c b \<Longrightarrow> reach ls start (Suc n) b"
proof -
  assume "reach ls start n c" and a: "adjacent ls c b"
  then obtain q where q: "walk ls q" "hd q = start" "last q = c" "length q = Suc n"
    by (auto simp: reach_def is_route_def)
  from q a have "is_route ls start b (q @ [b]) \<and> length (q @ [b]) = Suc (Suc n)"
    by (auto simp: is_route_def walk_snoc dest: walk_nonempty)
  then show ?thesis unfolding reach_def by blast
qed

lemma step_preserves:
  assumes i: "dinv ns ls start d p u" and l: "links_in ns ls" and g: "graph_of ls g"
    and f: "fst (find_min d u (None, \<infinity>)) = Some c"
    and gc: "g c = Some nbs"
    and rl: "relax (removeAll c u) c nbs (d, p) = (d', p')"
  shows "dinv ns ls start d' p' (removeAll c u)"
proof -
  let ?u = "removeAll c u"
  from select_exact [OF i l f] obtain n where cu: "c \<in> set u" and dc: "d c = Some (enat n)"
    and ex: "\<forall>m. reach ls start m c \<longrightarrow> n \<le> m"
    by blast
  from i cu have cn: "c \<in> set ns" by (auto simp: dinv_def)
  from g gc have gg: "(\<forall>nb\<in>set nbs. snd nb = 1 \<and> adjacent ls c (fst nb)) \<and>
        (\<forall>b. adjacent ls c b \<longrightarrow> b \<in> fst ` set nbs)"
    unfolding graph_of_def by blast
  then have w: "\<forall>nb\<in>set nbs. snd nb = 1" by blast
  from gg have adj: "b \<in> fst ` set nbs \<longleftrightarrow> adjacent ls c b" for b by auto
  have cnu: "c \<notin> set ?u" by simp
  define cond where "cond a \<longleftrightarrow> a \<in> set ?u \<and> adjacent ls c a \<and> (\<exists>x. d a = Some x \<and> enat (Suc n) < x)" for a
  from relax_closed [where d = d and c = c and u = "?u" and n = n and nbs = nbs and p = p, OF cnu dc w] rl
  have d': "\<And>a. d' a = (if cond a then Some (enat (Suc n)) else d a)"
    and p': "\<And>a. p' a = (if cond a then Some (Some c) else p a)"
    by (simp_all add: cond_def adj)
  have nc: "\<not> cond a" if "a \<notin> set ?u" for a using that by (simp add: cond_def)
  have keep: "d' a = d a" "p' a = p a" if "a \<notin> set u \<or> a = c" for a
    using that nc [of a] by (auto simp: d' p')
  from i have st: "start \<in> set ns" "d start = Some 0" "p start = Some None"
    by (simp_all add: dinv_def)
  have ncs: "\<not> cond start" using st by (simp add: cond_def zero_enat_def)
  from dinv_chained [OF i] have ch: "chained ns ls start d p" .
  have rc: "reach ls start n c" by (rule chain_reach [OF ch cn dc])
  have 1: "distinct ?u \<and> set ?u \<subseteq> set ns" using i by (auto simp: dinv_def distinct_removeAll)
  have 2: "d' start = Some 0 \<and> p' start = Some None" using st ncs by (simp add: d' p')
  have 3: "(d' a = Some \<infinity> \<and> p' a = Some None) \<or>
        (\<exists>b m. b \<in> set ns \<and> b \<notin> set ?u \<and> adjacent ls b a \<and> d' b = Some (enat m) \<and>
           d' a = Some (enat (Suc m)) \<and> p' a = Some (Some b))"
    if a: "a \<in> set ns" "a \<noteq> start" for a
  proof (cases "cond a")
    case True
    then have "c \<in> set ns \<and> c \<notin> set ?u \<and> adjacent ls c a \<and> d' c = Some (enat n) \<and>
           d' a = Some (enat (Suc n)) \<and> p' a = Some (Some c)"
      using cn dc keep [of c] by (simp add: d' p' cond_def)
    then show ?thesis by blast
  next
    case False
    from i a have "(d a = Some \<infinity> \<and> p a = Some None) \<or>
        (\<exists>b m. b \<in> set ns \<and> b \<notin> set u \<and> adjacent ls b a \<and> d b = Some (enat m) \<and>
           d a = Some (enat (Suc m)) \<and> p a = Some (Some b))"
      unfolding dinv_def by blast
    then show ?thesis
    proof
      assume "d a = Some \<infinity> \<and> p a = Some None"
      with False show ?thesis by (simp add: d' p')
    next
      assume "\<exists>b m. b \<in> set ns \<and> b \<notin> set u \<and> adjacent ls b a \<and> d b = Some (enat m) \<and>
           d a = Some (enat (Suc m)) \<and> p a = Some (Some b)"
      then obtain b m where b: "b \<in> set ns" "b \<notin> set u" "adjacent ls b a" "d b = Some (enat m)"
          "d a = Some (enat (Suc m))" "p a = Some (Some b)" by blast
      from b(2) keep [of b] b(4) have "d' b = Some (enat m)" "b \<notin> set ?u" by simp_all
      with b False show ?thesis by (auto simp: d' p')
    qed
  qed
  have 4: "\<exists>k. d' a = Some (enat k) \<and> (\<forall>m. reach ls start m a \<longrightarrow> k \<le> m)"
    if a: "a \<in> set ns" "a \<notin> set ?u" for a
  proof (cases "a = c")
    case True
    with dc ex keep [of c] show ?thesis by simp
  next
    case False
    with a have "a \<notin> set u" by simp
    with dinv_exact [OF i a(1) this] keep [of a] show ?thesis by simp
  qed
  have 5: "\<exists>k m. d' a = Some (enat k) \<and> d' b = Some (enat m) \<and> m \<le> Suc k"
    if a: "a \<in> set ns" "a \<notin> set ?u" "adjacent ls a b" for a b
  proof (cases "a = c")
    case False
    with a have au: "a \<notin> set u" by simp
    from dinv_relaxed [OF i a(1) au a(3)] obtain k m where
      km: "d a = Some (enat k)" "d b = Some (enat m)" "m \<le> Suc k" by blast
    from au keep [of a] km(1) have da: "d' a = Some (enat k)" by simp
    show ?thesis
    proof (cases "cond b")
      case True
      with km(2) have "Suc n < m" by (simp add: cond_def)
      with True km(3) da show ?thesis by (simp add: d')
    next
      case False
      with km da show ?thesis by (simp add: d')
    qed
  next
    case True
    from True keep [of c] dc have da: "d' a = Some (enat n)" by simp
    from adjacent_in [OF l a(3)] have bn: "b \<in> set ns" by simp
    show ?thesis
    proof (cases "b \<in> set ?u")
      case False
      from 4 [OF bn False] obtain k where k: "d' b = Some (enat k)"
        "\<forall>m. reach ls start m b \<longrightarrow> k \<le> m" by blast
      from reach_step [OF rc] a(3) True have "reach ls start (Suc n) b" by simp
      with k da show ?thesis by auto
    next
      case bu: True
      from dinv_defined [OF i bn] obtain x where x: "d b = Some x" by blast
      show ?thesis
      proof (cases "enat (Suc n) < x")
        case True
        with bu x a(3) \<open>a = c\<close> have "cond b" by (simp add: cond_def)
        with da show ?thesis by (simp add: d')
      next
        case False
        then obtain m where m: "x = enat m" "m \<le> Suc n" by (cases x) auto
        from False x have "\<not> cond b" by (simp add: cond_def)
        with x m da show ?thesis by (simp add: d')
      qed
    qed
  qed
  from 1 2 3 4 5 st(1) show ?thesis unfolding dinv_def by blast
qed

paragraph \<open>The end of the loop\<close>

lemma stop_unreachable:
  assumes i: "dinv ns ls start d p u" and l: "links_in ns ls" and e: "e \<in> set ns"
    and inf: "\<forall>a\<in>set u. \<forall>x. d a = Some x \<longrightarrow> x = \<infinity>"
  shows "dfin ns ls start e d p"
proof (cases "e \<in> set u")
  case False
  from dinv_exact [OF i e False] dinv_chained [OF i] show ?thesis by (simp add: dfin_def)
next
  case True
  from dinv_defined [OF i e] inf True have de: "d e = Some \<infinity>" by auto
  from i have st: "start \<in> set ns" "d start = Some 0" by (simp_all add: dinv_def)
  have sv: "start \<notin> set u"
  proof
    assume "start \<in> set u"
    with inf st(2) have "(0::enat) = \<infinity>" by blast
    then show False by simp
  qed
  have "\<not> reach ls start m e" for m
  proof
    assume "reach ls start m e"
    then obtain q where q: "walk ls q" "hd q = start" "last q = e"
      by (auto simp: reach_def is_route_def)
    from crossing [OF q(1), of "set ns - set u"] q(2,3) st(1) sv True
    obtain x y where x: "x \<in> set ns" "x \<notin> set u" "y \<notin> set ns - set u" "adjacent ls x y"
      by auto
    from adjacent_in [OF l x(4)] x(3) have "y \<in> set u" by simp
    moreover from dinv_relaxed [OF i x(1,2,4)] obtain my where "d y = Some (enat my)" by blast
    ultimately show False using inf by auto
  qed
  with de dinv_chained [OF i] show ?thesis by (simp add: dfin_def)
qed

lemma main_loop_dfin:
  "links_in ns ls \<Longrightarrow> graph_of ls g \<Longrightarrow> set ns \<subseteq> dom g \<Longrightarrow> e \<in> set ns \<Longrightarrow>
   dinv ns ls start (fst st) (fst (snd st)) (snd (snd st)) \<Longrightarrow>
   dfin ns ls start e (fst (main_loop g e st)) (fst (snd (main_loop g e st)))"
proof (induction g e st rule: main_loop.induct)
  case (1 g e d p u)
  note l = "1.prems"(1) and g = "1.prems"(2) and dg = "1.prems"(3) and e = "1.prems"(4)
  from "1.prems"(5) have i: "dinv ns ls start d p u" by simp
  show ?case
  proof (cases "0 < length u")
    case False
    then have "main_loop g e (d, p, u) = (d, p, u)" by (subst main_loop.simps) simp
    moreover from False have "\<forall>a\<in>set u. \<forall>x. d a = Some x \<longrightarrow> x = \<infinity>" by simp
    ultimately show ?thesis using stop_unreachable [OF i l e] by simp
  next
    case True
    show ?thesis
    proof (cases "fst (find_min d u (None, \<infinity>))")
      case None
      with True have "main_loop g e (d, p, u) = (d, p, u)" by (subst main_loop.simps) simp
      moreover from None have "\<forall>a\<in>set u. \<forall>x. d a = Some x \<longrightarrow> x = \<infinity>"
        using find_min_None [of d u] by blast
      ultimately show ?thesis using stop_unreachable [OF i l e] by simp
    next
      case (Some c)
      from select_exact [OF i l Some] obtain n where cu: "c \<in> set u" and dc: "d c = Some (enat n)"
        and ex: "\<forall>m. reach ls start m c \<longrightarrow> n \<le> m"
        by blast
      from dc have ninf: "d c \<noteq> Some \<infinity>" by simp
      show ?thesis
      proof (cases "c = e")
        case ce: True
        with True Some ninf have "main_loop g e (d, p, u) = (d, p, removeAll c u)"
          by (subst main_loop.simps) (simp add: Let_def)
        moreover from dc ex ce dinv_chained [OF i] have "dfin ns ls start e d p"
          by (auto simp: dfin_def)
        ultimately show ?thesis by simp
      next
        case ce: False
        from i cu have "c \<in> set ns" by (auto simp: dinv_def)
        with dg obtain nbs where nbs: "g c = Some nbs" by blast
        obtain d' p' where rl: "relax (removeAll c u) c nbs (d, p) = (d', p')"
          by (cases "relax (removeAll c u) c nbs (d, p)") auto
        from True Some ninf ce nbs rl
        have ml: "main_loop g e (d, p, u) = main_loop g e (d', p', removeAll c u)"
          by (subst main_loop.simps) (simp add: Let_def)
        have i': "dinv ns ls start d' p' (removeAll c u)"
          by (rule step_preserves [OF i l g Some nbs rl])
        from "1.IH"(2) [OF True Some ninf refl ce nbs rl [symmetric] l g dg e] i'
        show ?thesis unfolding ml by simp
      qed
    qed
  qed
qed

lemma init_dinv:
  assumes "start \<in> set ns" and "init_tables start ns (Map.empty, Map.empty, []) = (d0, p0, u0)"
  shows "dinv ns ls start d0 p0 u0"
proof -
  have rd: "\<And>n. d0 n = (if n \<in> set ns then Some (if n = start then 0 else \<infinity>) else None)"
    using init_tables_d [of start ns Map.empty Map.empty "[]"] by (simp add: assms(2))
  have rp: "\<And>n. p0 n = (if n \<in> set ns then Some None else None)"
    using init_tables_p [of start ns Map.empty Map.empty "[]"] by (simp add: assms(2))
  have ru: "set u0 = set ns"
    using init_tables_u [of start ns Map.empty Map.empty "[]"] by (simp add: assms(2))
  have du: "distinct u0"
    using init_tables_distinct [of "[]" start ns Map.empty Map.empty] by (simp add: assms(2))
  from assms(1) rd rp ru du show ?thesis
    unfolding dinv_def by simp
qed

text \<open>
  C6. For a source and a destination of the node list, every link joining listed nodes:
  when some route joins them, \<open>dijkstra\<close> returns a route from the source to the
  destination, and no route has fewer nodes; when none does, it returns the empty sequence.
  On the default topology the call for A and E returns A, C, E: three nodes, two links.
\<close>

theorem dijkstra_shortest:
  assumes "start \<in> set ns" and "e \<in> set ns"
    and "\<forall>l\<in>set ls. link_from l \<in> set ns \<and> link_to l \<in> set ns"
  shows "if (\<exists>q. is_route ls start e q)
         then (\<exists>path. dijkstra ns ls start e = Inr path \<and> is_route ls start e path \<and>
                 (\<forall>q. is_route ls start e q \<longrightarrow> length path \<le> length q))
         else dijkstra ns ls start e = Inr []"
proof -
  from assms(3) have l: "links_in ns ls" by (simp add: links_in_def)
  obtain d0 p0 u0 where it: "init_tables start ns (Map.empty, Map.empty, []) = (d0, p0, u0)"
    by (cases "init_tables start ns (Map.empty, Map.empty, [])") auto
  have "\<forall>l\<in>set ls. link_from l \<in> dom (init_graph ns Map.empty) \<and> link_to l \<in> dom (init_graph ns Map.empty)"
    using assms(3) by (simp add: dom_init_graph)
  from add_edges_ok [OF this] obtain g where g: "add_edges ls (init_graph ns Map.empty) = Inr g"
    and dg: "dom g = dom (init_graph ns Map.empty)" by blast
  from add_edges_graph [OF init_graph_of g] have gr: "graph_of ls g" by simp
  from dg have sub: "set ns \<subseteq> dom g" by (simp add: dom_init_graph)
  obtain d p u where ml: "main_loop g e (d0, p0, u0) = (d, p, u)"
    by (cases "main_loop g e (d0, p0, u0)") auto
  from main_loop_dfin [OF l gr sub assms(2), of start "(d0, p0, u0)"] init_dinv [OF assms(1) it, of ls] ml
  have fin: "dfin ns ls start e d p" by simp
  then have ch: "chained ns ls start d p" by (simp add: dfin_def)
  have dj: "dijkstra ns ls start e =
      (case reconstruct p (Some e) [] of None \<Rightarrow> Inl NonTermination
       | Some path \<Rightarrow> (case path of [] \<Rightarrow> Inr [] | x # xs \<Rightarrow> if x \<noteq> start then Inr [] else Inr path))"
    by (simp add: dijkstra_def it g ml)
  from fin consider n where "d e = Some (enat n)" "\<forall>m. reach ls start m e \<longrightarrow> n \<le> m"
    | "d e = Some \<infinity>" "\<forall>m. \<not> reach ls start m e"
    by (auto simp: dfin_def)
  then show ?thesis
  proof cases
    case 1
    from chain_route [OF ch assms(2) 1(1), of "[]"]
    obtain path where path: "reconstruct p (Some e) [] = Some path" "is_route ls start e path"
      "length path = Suc n" by auto
    from path(2) have "path \<noteq> []" "hd path = start" by (auto simp: is_route_def dest: walk_nonempty)
    then have "dijkstra ns ls start e = Inr path"
      by (cases path) (simp_all add: dj path(1))
    moreover have "length path \<le> length q" if q: "is_route ls start e q" for q
    proof -
      from q have "q \<noteq> []" by (auto simp: is_route_def dest: walk_nonempty)
      then have "length q = Suc (length q - 1)" by simp
      with q have "reach ls start (length q - 1) e" unfolding reach_def by blast
      with 1(2) have "n \<le> length q - 1" by blast
      with path(3) \<open>q \<noteq> []\<close> show ?thesis by (cases q) simp_all
    qed
    ultimately show ?thesis using path(2) by auto
  next
    case 2
    have no: "\<not> (\<exists>q. is_route ls start e q)"
    proof
      assume "\<exists>q. is_route ls start e q"
      then obtain q where q: "is_route ls start e q" by blast
      then have "q \<noteq> []" by (auto simp: is_route_def dest: walk_nonempty)
      then have "length q = Suc (length q - 1)" by simp
      with q have "reach ls start (length q - 1) e" unfolding reach_def by blast
      with 2(2) show False by blast
    qed
    from ch have "d start = Some 0" by (simp add: chained_def)
    with 2(1) have "e \<noteq> start" by auto
    with ch assms(2) 2(1) have "p e = Some None" by (auto simp: chained_def)
    then have "reconstruct p (Some e) [] = reconstruct p None [e]"
      by (subst reconstruct.simps) simp
    also have "\<dots> = Some [e]" by (subst reconstruct.simps) simp
    finally have "dijkstra ns ls start e = Inr []"
      using \<open>e \<noteq> start\<close> by (simp add: dj)
    with no show ?thesis by simp
  qed
qed

theorem dijkstra_shortest_witness:
  "dijkstra nodes default_links ''A'' ''E'' = Inr [''A'', ''C'', ''E''] \<and>
   is_route default_links ''A'' ''E'' [''A'', ''C'', ''E''] \<and>
   \<not> (\<exists>q. is_route default_links ''A'' ''E'' q \<and> length q < 3)"
proof -
  have a: "''A'' \<in> set nodes" "''E'' \<in> set nodes"
    "\<forall>l\<in>set default_links. link_from l \<in> set nodes \<and> link_to l \<in> set nodes"
    by (simp_all add: nodes_def default_links_def)
  have r: "is_route default_links ''A'' ''E'' [''A'', ''C'', ''E'']"
    by (simp add: is_route_def adjacent_def default_links_def)
  then have "\<exists>q. is_route default_links ''A'' ''E'' q" by blast
  with dijkstra_shortest [OF a] obtain path where
    p: "dijkstra nodes default_links ''A'' ''E'' = Inr path"
       "\<forall>q. is_route default_links ''A'' ''E'' q \<longrightarrow> length path \<le> length q"
    by auto
  from p(1) have "path = [''A'', ''C'', ''E'']" by (simp add: default_routes)
  with p r show ?thesis by auto
qed

end
